theory Spec2Isabelle
  imports Main "HOL-Library.Multiset"
begin

section \<open>Data model\<close>

text \<open>
  Modelled from the spec: the declarations of \<^verbatim>\<open>TeXElement\<close> and of the enum
  \<^verbatim>\<open>TeXElementType\<close>, which \<^verbatim>\<open>src/providers/structurelib/latex.ts\<close> imports from
  \<^verbatim>\<open>../structure\<close>. Section 3 of the spec gives an element its kind, name, label,
  source offset, first and last line (zero-based), file path and children; the kinds and
  the field names below are the ones \<^verbatim>\<open>latex.ts\<close> writes and tests
  (\<^verbatim>\<open>SectionAst\<close> is the starred section of the spec). An element is its scalar
  fields (\<open>Attrs\<close>) and the array of its children.

  The passes mutate \<^verbatim>\<open>children\<close> and \<^verbatim>\<open>label\<close> in place. The embedding is by
  value: a forest is a list of trees, and every pass returns the forest that the
  JavaScript objects hold when the pass returns. This is what the code computes as long
  as no element object occurs at two places of the forest that a pass is given; the
  results about the passes are results about such forests. (The splice of
  \<^verbatim>\<open>insertSubFile\<close> puts the same objects at two places when one file is included
  twice.)
\<close>

datatype TeXElementType = Environment | Command | Section | SectionAst | SubFile

record Attrs =
  type :: TeXElementType
  name :: string
  label :: string
  index :: int
  lineFr :: int
  lineTo :: int
  filePath :: string

datatype TeXElement = TeXElement (attrs: Attrs) (children: "TeXElement list")

text \<open>
  \<^verbatim>\<open>StructureConfig\<close>, with \<^verbatim>\<open>macros\<close> flattened into three fields. \<^verbatim>\<open>secIndex\<close>
  is an object used as a dictionary from command names to ranks (indices of an array, so
  natural numbers); a missing key reads as \<^verbatim>\<open>undefined\<close>, here \<open>None\<close>. Keys that
  JavaScript finds on \<^verbatim>\<open>Object.prototype\<close> (such as \<^verbatim>\<open>constructor\<close>) are outside the
  declared type \<^verbatim>\<open>{[cmd: string]: number}\<close> and outside this model.
\<close>

record StructureConfig =
  cmds :: "string list"
  envs :: "string list"
  secs :: "string list"
  secIndex :: "string \<Rightarrow> nat option"
  texDirs :: "string list"
  subFile :: bool

type_synonym FileStructureCache = "string \<Rightarrow> TeXElement list option"

text \<open>The two kinds of exception the code can raise by itself.\<close>

datatype error = TypeError | RangeError

text \<open>
  JavaScript's \<^verbatim>\<open><=\<close> and \<^verbatim>\<open>>\<close> on \<^verbatim>\<open>number | undefined\<close>: a comparison with
  \<^verbatim>\<open>undefined\<close> is false.
\<close>

fun js_le :: "nat option \<Rightarrow> nat option \<Rightarrow> bool" where
  "js_le (Some a) (Some b) = (a \<le> b)"
| "js_le _ _ = False"

fun js_gt :: "nat option \<Rightarrow> nat option \<Rightarrow> bool" where
  "js_gt (Some a) (Some b) = (a > b)"
| "js_gt _ _ = False"

definition rank :: "StructureConfig \<Rightarrow> TeXElement \<Rightarrow> nat option" where
  "rank config element = secIndex config (name (attrs element))"

section \<open>Strings and numbers\<close>

text \<open>
  \<^verbatim>\<open>s.split(c)\<close> and \<^verbatim>\<open>parts.join(c)\<close> for a separator of one character. The
  result of \<^verbatim>\<open>split\<close> is never empty: its first part is the text before the first
  separator.
\<close>

fun split :: "string \<Rightarrow> char \<Rightarrow> string list" where
  "split [] c = [[]]"
| "split (x # xs) c =
    (if x = c then [] # split xs c
     else (x # hd (split xs c)) # tl (split xs c))"

fun join :: "string list \<Rightarrow> char \<Rightarrow> string" where
  "join [] c = []"
| "join [p] c = p"
| "join (p # q # ps) c = p @ c # join (q # ps) c"

text \<open>
  \<^verbatim>\<open>n.toString()\<close> for a counter: the decimal digits of a natural number.
\<close>

definition digit :: "nat \<Rightarrow> char" where
  "digit n = ''0123456789'' ! n"

function toString :: "nat \<Rightarrow> string" where
  "toString n = (if n < 10 then [digit n] else toString (n div 10) @ [digit (n mod 10)])"
  by pat_completeness auto
termination
  by (relation "measure id") auto

declare toString.simps [simp del]

text \<open>
  \<^verbatim>\<open>env.charAt(0).toUpperCase() + env.slice(1)\<close>, on the letters \<^verbatim>\<open>a\<close> to \<^verbatim>\<open>z\<close>;
  other characters are kept.
\<close>

definition toUpperCase :: "char \<Rightarrow> char" where
  "toUpperCase c =
    (if c \<in> set ''abcdefghijklmnopqrstuvwxyz''
     then ''ABCDEFGHIJKLMNOPQRSTUVWXYZ'' ! (of_char c - 97)
     else c)"

fun capitalize :: "string \<Rightarrow> string" where
  "capitalize [] = []"
| "capitalize (c # cs) = toUpperCase c # cs"

definition backslash :: char where
  "backslash = CHR 0x5C"

definition newline :: char where
  "newline = CHR 0x0A"

section \<open>The parsed document and the node renderer\<close>

text \<open>
  The node types of \<^verbatim>\<open>@unified-latex/unified-latex-types\<close> that \<^verbatim>\<open>latex.ts\<close>
  reads: every node has an optional \<^verbatim>\<open>position\<close>; a macro has its name in
  \<^verbatim>\<open>content\<close> and optional \<^verbatim>\<open>args\<close>; an environment (type \<^verbatim>\<open>environment\<close> or
  \<^verbatim>\<open>mathenv\<close>) has \<^verbatim>\<open>env\<close>, optional \<^verbatim>\<open>args\<close> and a node array as
  \<^verbatim>\<open>content\<close>; \<^verbatim>\<open>verbatim\<close> and \<^verbatim>\<open>verb\<close> have \<^verbatim>\<open>env\<close> and a string
  \<^verbatim>\<open>content\<close>. Of a position only \<^verbatim>\<open>start.offset\<close>, \<^verbatim>\<open>start.line\<close> and
  \<^verbatim>\<open>end.line\<close> are read.
\<close>

record Position =
  startOffset :: int
  startLine :: int
  endLine :: int

datatype Node =
    AstRoot "Position option" "Node list"
  | AstString "Position option" string
  | AstWhitespace "Position option"
  | AstParbreak "Position option"
  | AstComment "Position option" string
  | AstMacro "Position option" string "Argument list option"
  | AstEnvironment "Position option" string "Argument list option" "Node list"
  | AstMathEnv "Position option" string "Argument list option" "Node list"
  | AstVerbatim "Position option" string string
  | AstInlineMath "Position option" "Node list"
  | AstDisplayMath "Position option" "Node list"
  | AstGroup "Position option" "Node list"
  | AstVerb "Position option" string string
and Argument = Argument (openMark: string) (closeMark: string) (argContent: "Node list")

text \<open>
  \<^verbatim>\<open>macroToStr\<close> returns, for \<^verbatim>\<open>texorpdfstring\<close>, the \<^verbatim>\<open>content\<close> field of the
  first node of the second argument, whatever that node is. The only caller joins the
  results into one string, so the field is modelled as \<^verbatim>\<open>join\<close> converts it: a
  string as itself, a missing field as the empty string, and an array of nodes as its
  elements' \<^verbatim>\<open>[object Object]\<close> separated by commas.
\<close>

fun objectList :: "Node list \<Rightarrow> string" where
  "objectList [] = []"
| "objectList [x] = ''[object Object]''"
| "objectList (x # y # ys) = ''[object Object],'' @ objectList (y # ys)"

fun contentAsString :: "Node \<Rightarrow> string" where
  "contentAsString (AstString p s) = s"
| "contentAsString (AstComment p s) = s"
| "contentAsString (AstMacro p s args) = s"
| "contentAsString (AstVerbatim p env s) = s"
| "contentAsString (AstVerb p env s) = s"
| "contentAsString (AstWhitespace p) = []"
| "contentAsString (AstParbreak p) = []"
| "contentAsString (AstRoot p ns) = objectList ns"
| "contentAsString (AstEnvironment p env args ns) = objectList ns"
| "contentAsString (AstMathEnv p env args ns) = objectList ns"
| "contentAsString (AstInlineMath p ns) = objectList ns"
| "contentAsString (AstDisplayMath p ns) = objectList ns"
| "contentAsString (AstGroup p ns) = objectList ns"

definition envToStr :: "string \<Rightarrow> string" where
  "envToStr env = backslash # ''environment{'' @ env @ ''}''"

text \<open>
  \<^verbatim>\<open>argContentToStr\<close> maps \<open>nodeToStr\<close> (the arrow function with the
  \<^verbatim>\<open>switch\<close>) over the nodes and joins the results. In \<^verbatim>\<open>macroToStr\<close>,
  \<^verbatim>\<open>macro.args?.[1].content[0]\<close> guards only a missing \<^verbatim>\<open>args\<close>: with fewer than two
  arguments \<^verbatim>\<open>.content\<close> is read from \<^verbatim>\<open>undefined\<close>, a TypeError.
\<close>

fun argContentToStr :: "Node list \<Rightarrow> error + string"
  and nodeToStr :: "Node \<Rightarrow> error + string"
  and macroToStr :: "string \<Rightarrow> Argument list option \<Rightarrow> error + string"
  and argsToStr :: "Argument list \<Rightarrow> error + string" where
  "argContentToStr [] = Inr []"
| "argContentToStr (node # rest) =
    (case nodeToStr node of
       Inl e \<Rightarrow> Inl e
     | Inr s \<Rightarrow> (case argContentToStr rest of Inl e \<Rightarrow> Inl e | Inr t \<Rightarrow> Inr (s @ t)))"
| "nodeToStr (AstString p s) = Inr s"
| "nodeToStr (AstWhitespace p) = Inr '' ''"
| "nodeToStr (AstParbreak p) = Inr '' ''"
| "nodeToStr (AstComment p s) = Inr '' ''"
| "nodeToStr (AstMacro p content args) = macroToStr content args"
| "nodeToStr (AstEnvironment p env args ns) = Inr (envToStr env)"
| "nodeToStr (AstVerbatim p env s) = Inr (envToStr env)"
| "nodeToStr (AstMathEnv p env args ns) = Inr (envToStr env)"
| "nodeToStr (AstInlineMath p ns) =
    (case argContentToStr ns of Inl e \<Rightarrow> Inl e | Inr s \<Rightarrow> Inr (''$'' @ s @ ''$''))"
| "nodeToStr (AstDisplayMath p ns) =
    (case argContentToStr ns of
       Inl e \<Rightarrow> Inl e
     | Inr s \<Rightarrow> Inr (backslash # ''['' @ s @ backslash # '']''))"
| "nodeToStr (AstGroup p ns) = argContentToStr ns"
| "nodeToStr (AstVerb p env s) = Inr s"
| "nodeToStr (AstRoot p ns) = Inr []"
| "macroToStr content None =
    (if content = ''texorpdfstring'' then Inr [] else Inr (backslash # content))"
| "macroToStr content (Some args) =
    (if content = ''texorpdfstring'' then
       (case args of
          a0 # a1 # others \<Rightarrow>
            (case argContent a1 of [] \<Rightarrow> Inr [] | n # ns \<Rightarrow> Inr (contentAsString n))
        | _ \<Rightarrow> Inl TypeError)
     else (case argsToStr args of Inl e \<Rightarrow> Inl e | Inr s \<Rightarrow> Inr (backslash # content @ s)))"
| "argsToStr [] = Inr []"
| "argsToStr (Argument openM closeM ns # rest) =
    (case argContentToStr ns of
       Inl e \<Rightarrow> Inl e
     | Inr s \<Rightarrow>
         (case argsToStr rest of Inl e \<Rightarrow> Inl e | Inr t \<Rightarrow> Inr (openM @ s @ closeM @ t)))"

section \<open>The per-file extractor\<close>

text \<open>
  What \<^verbatim>\<open>latex.ts\<close> reads from outside itself, as a parameter of the model:
  \<^item> \<open>rootFile\<close>: \<^verbatim>\<open>lw.manager.rootFile\<close>;
  \<^item> \<open>dirtyText\<close>: the text of an open editor with unsaved edits on a path
    (\<^verbatim>\<open>openEditor.getText()\<close> when \<^verbatim>\<open>openEditor?.isDirty\<close>), and \<open>unifiedParse\<close>:
    the \<^verbatim>\<open>content\<close> of the root that \<^verbatim>\<open>parser.unifiedParse\<close> returns for a text;
  \<^item> \<open>cached\<close>: \<^verbatim>\<open>lw.cacher.get(filePath)\<close> once the polling loop of
    \<^verbatim>\<open>constructFile\<close> is over, with the optional \<^verbatim>\<open>content\<close> and the \<^verbatim>\<open>content\<close> of
    the optional \<^verbatim>\<open>ast\<close>. The loop itself waits at most 20 times 100 ms, then forces
    one refresh and leaves;
  \<^item> \<open>execChild\<close>: the successive results of \<^verbatim>\<open>InputFileRegExp.execChild\<close> on a
    text, each as \<^verbatim>\<open>(result.path, result.match.path, result.match.index)\<close>;
  \<^item> \<open>resolveFile\<close> of \<^verbatim>\<open>utils\<close>, and \<^verbatim>\<open>path.dirname\<close>, \<^verbatim>\<open>path.join\<close>;
  \<^item> the settings read from the configuration \<^verbatim>\<open>latex-workshop\<close>.
\<close>

record World =
  rootFile :: "string option"
  dirtyText :: "string \<Rightarrow> string option"
  unifiedParse :: "string \<Rightarrow> Node list"
  cached :: "string \<Rightarrow> (string option \<times> Node list option) option"
  execChild :: "string \<Rightarrow> string \<Rightarrow> string \<Rightarrow> (string \<times> string \<times> nat) list"
  resolveFile :: "string list \<Rightarrow> string \<Rightarrow> string option"
  dirname :: "string \<Rightarrow> string"
  pathJoin :: "string \<Rightarrow> string \<Rightarrow> string"
  viewOutlineCommands :: "string list"
  viewOutlineFloatsEnabled :: bool
  viewOutlineFloatsCaptionEnabled :: bool
  viewOutlineFloatsNumberEnabled :: bool
  viewOutlineNumbersEnabled :: bool
  viewOutlineSections :: "string list"
  latexTexDirs :: "string list"

text \<open>\<^verbatim>\<open>lw.manager.rootFile || ''\<close>.\<close>

definition rootFileOrEmpty :: "World \<Rightarrow> string" where
  "rootFileOrEmpty world = (case rootFile world of None \<Rightarrow> [] | Some f \<Rightarrow> f)"

text \<open>
  The \<^verbatim>\<open>content\<close> and \<^verbatim>\<open>ast\<close> that \<^verbatim>\<open>constructFile\<close> holds when it reaches its
  test \<^verbatim>\<open>!content || !ast\<close>.
\<close>

definition acquire :: "World \<Rightarrow> string \<Rightarrow> string option \<times> Node list option" where
  "acquire world file =
    (case dirtyText world file of
       Some text \<Rightarrow> (Some text, Some (unifiedParse world text))
     | None \<Rightarrow>
         (case cached world file of
            None \<Rightarrow> (None, None)
          | Some (content, ast) \<Rightarrow> (content, ast)))"

record RnwSub =
  rnwSubFile :: string
  rnwPath :: string
  rnwLine :: int

text \<open>
  \<^verbatim>\<open>parseRnwChildCommand\<close>: one entry per match, in the order of the matches; the line
  is the number of newlines before the match.
\<close>

definition parseRnwChildCommand :: "World \<Rightarrow> string \<Rightarrow> string \<Rightarrow> string \<Rightarrow> RnwSub list" where
  "parseRnwChildCommand world content file root =
    map (\<lambda>(p, matchPath, matchIndex).
          \<lparr>rnwSubFile = p, rnwPath = matchPath,
           rnwLine = int (length (filter (\<lambda>ch. ch = newline) (take matchIndex content)))\<rparr>)
      (execChild world content file root)"

fun position :: "Node \<Rightarrow> Position option" where
  "position (AstRoot p ns) = p"
| "position (AstString p s) = p"
| "position (AstWhitespace p) = p"
| "position (AstParbreak p) = p"
| "position (AstComment p s) = p"
| "position (AstMacro p s args) = p"
| "position (AstEnvironment p env args ns) = p"
| "position (AstMathEnv p env args ns) = p"
| "position (AstVerbatim p env s) = p"
| "position (AstInlineMath p ns) = p"
| "position (AstDisplayMath p ns) = p"
| "position (AstGroup p ns) = p"
| "position (AstVerb p env s) = p"

text \<open>
  The nodes that \<^verbatim>\<open>parseNode\<close> recurses into: those with a \<^verbatim>\<open>content\<close> that is not
  a string.
\<close>

fun nodeContent :: "Node \<Rightarrow> Node list" where
  "nodeContent (AstRoot p ns) = ns"
| "nodeContent (AstEnvironment p env args ns) = ns"
| "nodeContent (AstMathEnv p env args ns) = ns"
| "nodeContent (AstInlineMath p ns) = ns"
| "nodeContent (AstDisplayMath p ns) = ns"
| "nodeContent (AstGroup p ns) = ns"
| "nodeContent n = []"

lemma size_nodeContent: "size_list size (nodeContent n) \<le> size n"
  by (cases n) auto

text \<open>
  The object \<^verbatim>\<open>attributes\<close> of \<^verbatim>\<open>parseNode\<close>, completed by \<^verbatim>\<open>type\<close>,
  \<^verbatim>\<open>name\<close> and \<^verbatim>\<open>label\<close>.
\<close>

definition nodeLineFr :: "Node \<Rightarrow> int" where
  "nodeLineFr node = (case position node of None \<Rightarrow> 1 | Some p \<Rightarrow> startLine p) - 1"

definition nodeLineTo :: "Node \<Rightarrow> int" where
  "nodeLineTo node = (case position node of None \<Rightarrow> 1 | Some p \<Rightarrow> endLine p) - 1"

definition mkElement ::
  "Node \<Rightarrow> string \<Rightarrow> TeXElementType \<Rightarrow> string \<Rightarrow> string \<Rightarrow> TeXElement" where
  "mkElement node file t n l =
    TeXElement
      \<lparr>type = t, name = n, label = l,
       index = (case position node of None \<Rightarrow> 0 | Some p \<Rightarrow> startOffset p),
       lineFr = nodeLineFr node, lineTo = nodeLineTo node, filePath = file\<rparr> []"

text \<open>\<^verbatim>\<open>args?.[i]?.content\<close>, and \<^verbatim>\<open>x || []\<close> on it.\<close>

definition argAt :: "Argument list option \<Rightarrow> nat \<Rightarrow> Node list option" where
  "argAt args i =
    (case args of
       None \<Rightarrow> None
     | Some as \<Rightarrow> if i < length as then Some (argContent (as ! i)) else None)"

definition orEmpty :: "Node list option \<Rightarrow> Node list" where
  "orEmpty c = (case c of None \<Rightarrow> [] | Some ns \<Rightarrow> ns)"

text \<open>
  \<^verbatim>\<open>content.find(sub => sub.type === 'macro' && sub.content === m)?.args\<close>.
\<close>

fun findMacroArgs :: "string \<Rightarrow> Node list \<Rightarrow> Argument list option" where
  "findMacroArgs m [] = None"
| "findMacroArgs m (AstMacro p content args # rest) =
    (if content = m then args else findMacroArgs m rest)"
| "findMacroArgs m (n # rest) = findMacroArgs m rest"

text \<open>
  The caption of a \<^verbatim>\<open>macro\<close> or \<^verbatim>\<open>environment\<close> block,
  \<^verbatim>\<open>node.content[0]?.content[0]\<close>, as the template literal prints it (\<open>None\<close> where it
  is \<^verbatim>\<open>undefined\<close>). A first node without a \<^verbatim>\<open>content\<close> field (whitespace, a
  paragraph break) makes the index a TypeError.
\<close>

fun firstOfContent :: "Node \<Rightarrow> error + string option" where
  "firstOfContent (AstWhitespace p) = Inl TypeError"
| "firstOfContent (AstParbreak p) = Inl TypeError"
| "firstOfContent (AstString p s) = Inr (case s of [] \<Rightarrow> None | c # cs \<Rightarrow> Some [c])"
| "firstOfContent (AstComment p s) = Inr (case s of [] \<Rightarrow> None | c # cs \<Rightarrow> Some [c])"
| "firstOfContent (AstMacro p s args) = Inr (case s of [] \<Rightarrow> None | c # cs \<Rightarrow> Some [c])"
| "firstOfContent (AstVerbatim p env s) = Inr (case s of [] \<Rightarrow> None | c # cs \<Rightarrow> Some [c])"
| "firstOfContent (AstVerb p env s) = Inr (case s of [] \<Rightarrow> None | c # cs \<Rightarrow> Some [c])"
| "firstOfContent (AstRoot p ns) =
    Inr (case ns of [] \<Rightarrow> None | n # ms \<Rightarrow> Some ''[object Object]'')"
| "firstOfContent (AstEnvironment p env args ns) =
    Inr (case ns of [] \<Rightarrow> None | n # ms \<Rightarrow> Some ''[object Object]'')"
| "firstOfContent (AstMathEnv p env args ns) =
    Inr (case ns of [] \<Rightarrow> None | n # ms \<Rightarrow> Some ''[object Object]'')"
| "firstOfContent (AstInlineMath p ns) =
    Inr (case ns of [] \<Rightarrow> None | n # ms \<Rightarrow> Some ''[object Object]'')"
| "firstOfContent (AstDisplayMath p ns) =
    Inr (case ns of [] \<Rightarrow> None | n # ms \<Rightarrow> Some ''[object Object]'')"
| "firstOfContent (AstGroup p ns) =
    Inr (case ns of [] \<Rightarrow> None | n # ms \<Rightarrow> Some ''[object Object]'')"

definition docCaption :: "Node list \<Rightarrow> error + string option" where
  "docCaption content = (case content of [] \<Rightarrow> Inr None | n # ns \<Rightarrow> firstOfContent n)"

definition bindE :: "error + 'a \<Rightarrow> ('a \<Rightarrow> error + 'b) \<Rightarrow> error + 'b" where
  "bindE m f = (case m of Inl e \<Rightarrow> Inl e | Inr x \<Rightarrow> f x)"

text \<open>
  A \<^verbatim>\<open>SubFile\<close> element for a resolved inclusion, and the file to extract when
  sub-files are merged. \<^verbatim>\<open>if (subFile)\<close> is false for \<^verbatim>\<open>undefined\<close> and for the
  empty string.
\<close>

definition subFileElement ::
  "StructureConfig \<Rightarrow> Node \<Rightarrow> string \<Rightarrow> string \<Rightarrow> string option \<Rightarrow> string
    \<Rightarrow> TeXElement option \<times> string option" where
  "subFileElement config node file macroName resolved raw =
    (case resolved of
       None \<Rightarrow> (None, None)
     | Some f \<Rightarrow>
         if f = [] then (None, None)
         else (Some (mkElement node file SubFile macroName (if subFile config then f else raw)),
               if subFile config then Some f else None))"

text \<open>
  The chain of \<^verbatim>\<open>if\<close>/\<^verbatim>\<open>else if\<close> of \<^verbatim>\<open>parseNode\<close> that decides which element
  a node produces, if any, together with the file whose extraction the branch awaits (the
  extraction itself is in \<open>parseNode\<close> below). The branches are tried in the order of
  the source; they are grouped here by the node type that each of them tests first.
\<close>

fun classify ::
  "World \<Rightarrow> StructureConfig \<Rightarrow> string \<Rightarrow> Node \<Rightarrow> error + (TeXElement option \<times> string option)" where
  "classify world config file (AstMacro p content args) =
    (if content \<in> set (secs config) then
       bindE (argContentToStr
               (orEmpty (if 0 < length (orEmpty (argAt args 1)) then argAt args 1 else argAt args 2)))
         (\<lambda>l. Inr (Some (mkElement (AstMacro p content args) file
                        (if orEmpty (argAt args 0) \<noteq> [] then SectionAst else Section) content l),
                   None))
     else if content \<in> set (cmds config) then
       bindE (argContentToStr (orEmpty (argAt args 1)))
         (\<lambda>argStr. Inr (Some (mkElement (AstMacro p content args) file Command content
                        (''#'' @ content @ (if argStr \<noteq> [] then '': '' @ argStr else []))),
                   None))
     else if content \<in> set [''input'', ''InputIfFileExists'', ''include'', ''SweaveInput'',
                             ''subfile'', ''loadglsentries'', ''markdownInput''] then
       bindE (argContentToStr (orEmpty (argAt args 0)))
         (\<lambda>arg0. Inr (subFileElement config (AstMacro p content args) file content
                   (resolveFile world
                      ([dirname world file, dirname world (rootFileOrEmpty world)] @ texDirs config)
                      arg0)
                   arg0))
     else if content \<in> set [''import'', ''inputfrom'', ''includefrom''] then
       bindE (argContentToStr (orEmpty (argAt args 0)))
         (\<lambda>arg0. bindE (argContentToStr (orEmpty (argAt args 1)))
           (\<lambda>arg1. Inr (subFileElement config (AstMacro p content args) file content
                     (resolveFile world
                        [arg0, pathJoin world (dirname world (rootFileOrEmpty world)) arg0] arg1)
                     arg1)))
     else if content \<in> set [''subimport'', ''subinputfrom'', ''subincludefrom''] then
       bindE (argContentToStr (orEmpty (argAt args 0)))
         (\<lambda>arg0. bindE (argContentToStr (orEmpty (argAt args 1)))
           (\<lambda>arg1. Inr (subFileElement config (AstMacro p content args) file content
                     (resolveFile world [dirname world file] (pathJoin world arg0 arg1))
                     arg1)))
     else Inr (None, None))"
| "classify world config file (AstEnvironment p env args ns) =
    (if env = ''frame'' then
       bindE (argContentToStr (orEmpty (argAt args 3)))
         (\<lambda>c3. bindE (if c3 \<noteq> [] then Inr c3
                       else argContentToStr (orEmpty (argAt (findMacroArgs ''frametitle'' ns) 2)))
           (\<lambda>caption. Inr (Some (mkElement (AstEnvironment p env args ns) file Environment env
                          (capitalize env @
                            (if viewOutlineFloatsCaptionEnabled world \<and> caption \<noteq> []
                             then '': '' @ caption else []))),
                        None)))
     else if (env = ''figure'' \<or> env = ''figure*'') \<and> ''figure'' \<in> set (envs config)
           \<or> (env = ''table'' \<or> env = ''table*'') \<and> ''table'' \<in> set (envs config) then
       bindE (argContentToStr (orEmpty (argAt (findMacroArgs ''caption'' ns) 1)))
         (\<lambda>caption.
            let env' = (if env \<noteq> [] \<and> last env = CHR ''*'' then butlast env else env) in
            Inr (Some (mkElement (AstEnvironment p env args ns) file Environment env'
                   (capitalize env' @
                     (if viewOutlineFloatsCaptionEnabled world \<and> caption \<noteq> []
                      then '': '' @ caption else []))),
                 None))
     else if env = ''macro'' \<or> env = ''environment'' then
       bindE (docCaption ns)
         (\<lambda>caption. Inr (Some (mkElement (AstEnvironment p env args ns) file Environment env
                        (capitalize env @
                          (case caption of
                             None \<Rightarrow> []
                           | Some c \<Rightarrow>
                               if viewOutlineFloatsCaptionEnabled world then '': '' @ c else []))),
                      None))
     else if env \<in> set (envs config) then
       Inr (Some (mkElement (AstEnvironment p env args ns) file Environment env (capitalize env)),
            None)
     else Inr (None, None))"
| "classify world config file (AstMathEnv p env args ns) =
    (if env \<in> set (envs config) then
       Inr (Some (mkElement (AstMathEnv p env args ns) file Environment env (capitalize env)),
            None)
     else Inr (None, None))"
| "classify world config file node = Inr (None, None)"

text \<open>
  The legacy child element that \<^verbatim>\<open>parseNode\<close> pushes when it pops the queue. Its
  \<^verbatim>\<open>index\<close> is \<^verbatim>\<open>(node.position?.start.offset ?? 1) - 1\<close>.
\<close>

definition rnwElement :: "StructureConfig \<Rightarrow> Node \<Rightarrow> string \<Rightarrow> RnwSub \<Rightarrow> TeXElement" where
  "rnwElement config node file rnw =
    TeXElement
      \<lparr>type = SubFile, name = ''RnwChild'',
       label = (if subFile config then rnwSubFile rnw else rnwPath rnw),
       index = (case position node of None \<Rightarrow> 1 | Some p \<Rightarrow> startOffset p) - 1,
       lineFr = nodeLineFr node, lineTo = nodeLineTo node, filePath = file\<rparr> []"

text \<open>
  \<^verbatim>\<open>constructFile\<close> and \<^verbatim>\<open>parseNode\<close> call each other, and nothing bounds the
  depth of the calls: the first argument is fuel, one unit per nested
  \<^verbatim>\<open>constructFile\<close>, and \<open>None\<close> is the result of a computation that needs more. A
  result \<open>Some (Inl e)\<close> is the exception \<open>e\<close>, \<open>Some (Inr v)\<close> the value \<open>v\<close>.

  \<open>parseNode\<close> returns what the call pushes to \<^verbatim>\<open>root.children\<close>, the queue
  \<^verbatim>\<open>rnwSub\<close> and the cache \<^verbatim>\<open>structs\<close> as the call leaves them. \<open>parseNodes\<close> is
  the loop \<^verbatim>\<open>for (const sub of node.content)\<close>, and the same loop over
  \<^verbatim>\<open>ast.content\<close> in \<^verbatim>\<open>constructFile\<close>.
\<close>

function constructFile ::
    "nat \<Rightarrow> World \<Rightarrow> StructureConfig \<Rightarrow> string \<Rightarrow> FileStructureCache
      \<Rightarrow> (error + FileStructureCache) option"
  and parseNode ::
    "nat \<Rightarrow> World \<Rightarrow> StructureConfig \<Rightarrow> string \<Rightarrow> Node \<Rightarrow> RnwSub list \<Rightarrow> FileStructureCache
      \<Rightarrow> (error + TeXElement list \<times> RnwSub list \<times> FileStructureCache) option"
  and parseNodes ::
    "nat \<Rightarrow> World \<Rightarrow> StructureConfig \<Rightarrow> string \<Rightarrow> Node list \<Rightarrow> RnwSub list \<Rightarrow> FileStructureCache
      \<Rightarrow> (error + TeXElement list \<times> RnwSub list \<times> FileStructureCache) option" where
  "constructFile 0 world config file structs = None"
| "constructFile (Suc fuel) world config file structs =
    (if structs file \<noteq> None then Some (Inr structs)
     else case acquire world file of
         (Some content, Some ast) \<Rightarrow>
           if content = [] then Some (Inr structs)
           else (case parseNodes fuel world config file ast
                        (parseRnwChildCommand world content file (rootFileOrEmpty world)) structs of
                   None \<Rightarrow> None
                 | Some (Inl e) \<Rightarrow> Some (Inl e)
                 | Some (Inr (rootChildren, rnwSub', structs')) \<Rightarrow>
                     Some (Inr (structs'(file \<mapsto> rootChildren))))
       | _ \<Rightarrow> Some (Inr structs))"
| "parseNode fuel world config file node rnwSub structs =
    (case classify world config file node of
       Inl e \<Rightarrow> Some (Inl e)
     | Inr (element, awaited) \<Rightarrow>
         (case (case awaited of
                  None \<Rightarrow> Some (Inr structs)
                | Some f \<Rightarrow> constructFile fuel world config f structs) of
            None \<Rightarrow> None
          | Some (Inl e) \<Rightarrow> Some (Inl e)
          | Some (Inr structs1) \<Rightarrow>
              (case (if rnwSub \<noteq> [] \<and> rnwLine (last rnwSub) \<ge> nodeLineFr node
                     then (case (if subFile config
                                 then constructFile fuel world config (rnwSubFile (last rnwSub)) structs1
                                 else Some (Inr structs1)) of
                             None \<Rightarrow> None
                           | Some (Inl e) \<Rightarrow> Some (Inl e)
                           | Some (Inr structs2) \<Rightarrow>
                               Some (Inr ([rnwElement config node file (last rnwSub)],
                                          butlast rnwSub, structs2)))
                     else Some (Inr ([], rnwSub, structs1))) of
                 None \<Rightarrow> None
               | Some (Inl e) \<Rightarrow> Some (Inl e)
               | Some (Inr (pushed, rnwSub1, structs2)) \<Rightarrow>
                   (case parseNodes fuel world config file (nodeContent node) rnwSub1 structs2 of
                      None \<Rightarrow> None
                    | Some (Inl e) \<Rightarrow> Some (Inl e)
                    | Some (Inr (below, rnwSub2, structs3)) \<Rightarrow>
                        Some (Inr (pushed @
                                     (case element of
                                        None \<Rightarrow> below
                                      | Some el \<Rightarrow> [TeXElement (attrs el) below]),
                                   rnwSub2, structs3))))))"
| "parseNodes fuel world config file [] rnwSub structs = Some (Inr ([], rnwSub, structs))"
| "parseNodes fuel world config file (node # rest) rnwSub structs =
    (case parseNode fuel world config file node rnwSub structs of
       None \<Rightarrow> None
     | Some (Inl e) \<Rightarrow> Some (Inl e)
     | Some (Inr (pushed, rnwSub1, structs1)) \<Rightarrow>
         (case parseNodes fuel world config file rest rnwSub1 structs1 of
            None \<Rightarrow> None
          | Some (Inl e) \<Rightarrow> Some (Inl e)
          | Some (Inr (pushed', rnwSub2, structs2)) \<Rightarrow>
              Some (Inr (pushed @ pushed', rnwSub2, structs2))))"
  by pat_completeness auto


termination
proof (relation "inv_image (less_than <*lex*> less_than)
      (\<lambda>x. case x of
          Inl (fuel, w, c, f, s) \<Rightarrow> (fuel, 0)
        | Inr (Inl (fuel, w, c, f, node, r, s)) \<Rightarrow> (fuel, 2 * size node + 2)
        | Inr (Inr (fuel, w, c, f, nodes, r, s)) \<Rightarrow> (fuel, 2 * size_list size nodes + 1))",
    goal_cases)
  case (5 fuel world config f node rnwSub structs)
  then show ?case using size_nodeContent[of node] by simp
qed auto

declare parseNode.simps [simp del]

section \<open>Pass 1: insertSubFile\<close>

text \<open>
  \<^verbatim>\<open>insertSubFile(structs, struct?)\<close>. The optional parameter gives two entry points:
  \<open>insertSubFile\<close> is the call without \<^verbatim>\<open>struct\<close>, which starts from
  \<^verbatim>\<open>structs[lw.manager.rootFile] ?? []\<close>, and \<open>insertSubFileIn\<close> is the call with
  it. The recursion through \<^verbatim>\<open>structs[element.label]\<close> is not bounded by the size of
  the forest, so it takes fuel, one unit per spliced file; \<open>None\<close> is a computation that
  needs more.
\<close>

fun insertSubFileIn ::
    "nat \<Rightarrow> World \<Rightarrow> FileStructureCache \<Rightarrow> TeXElement list \<Rightarrow> TeXElement list option"
  and insertSubFileLoop ::
    "nat \<Rightarrow> World \<Rightarrow> FileStructureCache \<Rightarrow> TeXElement list \<Rightarrow> TeXElement list option" where
  "insertSubFileIn fuel world structs struct =
    (if rootFile world = None then Some [] else insertSubFileLoop fuel world structs struct)"
| "insertSubFileLoop fuel world structs [] = Some []"
| "insertSubFileLoop fuel world structs (TeXElement a cs # rest) =
    (if type a = SubFile \<and> structs (label a) \<noteq> None then
       (case fuel of
          0 \<Rightarrow> None
        | Suc fuel' \<Rightarrow>
            (case insertSubFileIn fuel' world structs (the (structs (label a))) of
               None \<Rightarrow> None
             | Some spliced \<Rightarrow>
                 (case insertSubFileLoop fuel world structs rest of
                    None \<Rightarrow> None
                  | Some elements \<Rightarrow> Some (spliced @ elements))))
     else
       (case (if cs \<noteq> [] then insertSubFileIn fuel world structs cs else Some cs) of
          None \<Rightarrow> None
        | Some cs' \<Rightarrow>
            (case insertSubFileLoop fuel world structs rest of
               None \<Rightarrow> None
             | Some elements \<Rightarrow> Some (TeXElement a cs' # elements))))"

definition insertSubFile ::
  "nat \<Rightarrow> World \<Rightarrow> FileStructureCache \<Rightarrow> TeXElement list option" where
  "insertSubFile fuel world structs =
    (case rootFile world of
       None \<Rightarrow> Some []
     | Some root \<Rightarrow>
         insertSubFileIn fuel world structs
           (case structs root of None \<Rightarrow> [] | Some struct \<Rightarrow> struct))"

section \<open>Pass 2: nestNonSection\<close>

text \<open>
  \<^verbatim>\<open>currentSection\<close> is a reference to an element already pushed to \<^verbatim>\<open>elements\<close>;
  it is kept as the index of that element in \<open>elements\<close>. The loop body pushes the
  element first and replaces its children by \<^verbatim>\<open>nestNonSection(element.children)\<close>
  afterwards; both act on the same object, so the element is written with the nested
  children. (For an empty \<^verbatim>\<open>children\<close> the code skips the call, whose result would be
  the empty array again.)
\<close>

fun nestNonSection :: "TeXElement list \<Rightarrow> TeXElement list"
  and nestNonSectionLoop ::
    "TeXElement list \<Rightarrow> TeXElement list \<Rightarrow> nat option \<Rightarrow> TeXElement list" where
  "nestNonSection struct = nestNonSectionLoop struct [] None"
| "nestNonSectionLoop [] elements currentSection = elements"
| "nestNonSectionLoop (TeXElement a cs # rest) elements currentSection =
    (let element = TeXElement a (nestNonSection cs) in
     if type a = Section \<or> type a = SectionAst then
       nestNonSectionLoop rest (elements @ [element]) (Some (length elements))
     else (case currentSection of
         None \<Rightarrow> nestNonSectionLoop rest (elements @ [element]) None
       | Some i \<Rightarrow>
           nestNonSectionLoop rest
             (elements[i := TeXElement (attrs (elements ! i)) (children (elements ! i) @ [element])])
             currentSection))"

section \<open>Pass 3: nestSection\<close>

text \<open>
  \<^verbatim>\<open>stack\<close> holds references to elements that were already placed in the output: at
  top level by \<^verbatim>\<open>elements.push\<close>, or in the \<^verbatim>\<open>children\<close> array of an earlier stack
  entry. A reference is modelled by the place of the object in the output forest: the
  list of child indices that leads to it from \<open>elements\<close>. Arrays only grow at their
  end during the pass, so a place keeps denoting the same object.

  \<open>node_at\<close> dereferences a place; \<open>push_at\<close> is \<^verbatim>\<open>r.children.push(element)\<close> for the
  object at place \<open>r\<close>.
\<close>

type_synonym ref = "nat list"

fun node_at :: "TeXElement list \<Rightarrow> ref \<Rightarrow> TeXElement option" where
  "node_at es [] = None"
| "node_at es [i] = (if i < length es then Some (es ! i) else None)"
| "node_at es (i # j # r) =
    (if i < length es then node_at (children (es ! i)) (j # r) else None)"

fun push_at :: "TeXElement list \<Rightarrow> ref \<Rightarrow> TeXElement \<Rightarrow> TeXElement list" where
  "push_at es [] element = es @ [element]"
| "push_at es (i # r) element =
    (if i < length es
     then es[i := TeXElement (attrs (es ! i)) (push_at (children (es ! i)) r element)]
     else es)"

text \<open>
  \<^verbatim>\<open>stack[stack.length - 1].children.push(element); stack.push(element)\<close>. Reading
  \<^verbatim>\<open>.children\<close> of \<^verbatim>\<open>undefined\<close> (an empty stack) is a TypeError.
\<close>

definition pushChild ::
  "TeXElement list \<Rightarrow> ref list \<Rightarrow> TeXElement \<Rightarrow> error + (TeXElement list \<times> ref list)" where
  "pushChild elements stack element =
    (if stack = [] then Inl TypeError
     else (case node_at elements (last stack) of
         None \<Rightarrow> Inl TypeError
       | Some parent \<Rightarrow>
           Inr (push_at elements (last stack) element,
                stack @ [last stack @ [length (children parent)]])))"

text \<open>
  The \<^verbatim>\<open>while\<close> loop of the last branch:
  \<^verbatim>\<open>while (secIndex[element.name] <= secIndex[stack[stack.length - 1].name]) stack.pop()\<close>.
  Its condition reads \<^verbatim>\<open>.name\<close> of the last stack entry, a TypeError once the stack
  is empty.
\<close>

function popWhile ::
  "StructureConfig \<Rightarrow> TeXElement \<Rightarrow> TeXElement list \<Rightarrow> ref list \<Rightarrow> error + ref list" where
  "popWhile config element elements stack =
    (if stack = [] then Inl TypeError
     else (case node_at elements (last stack) of
         None \<Rightarrow> Inl TypeError
       | Some parent \<Rightarrow>
           if js_le (rank config element) (rank config parent)
           then popWhile config element elements (butlast stack)
           else Inr stack))"
  by pat_completeness auto
termination
  by (relation "measure (\<lambda>(config, element, elements, stack). length stack)") auto

declare popWhile.simps [simp del]

text \<open>One iteration of the \<^verbatim>\<open>for\<close> loop of \<^verbatim>\<open>nestSection\<close>.\<close>

fun nestSectionStep ::
  "StructureConfig \<Rightarrow> TeXElement list \<times> ref list \<Rightarrow> TeXElement
    \<Rightarrow> error + (TeXElement list \<times> ref list)" where
  "nestSectionStep config (elements, stack) element =
    (if type (attrs element) \<noteq> Section \<and> type (attrs element) \<noteq> SectionAst
        \<and> type (attrs element) \<noteq> SubFile
     then Inr (elements @ [element], stack)
     else if stack = [] then Inr (elements @ [element], [[length elements]])
     else (case node_at elements (hd stack) of
         None \<Rightarrow> Inl TypeError
       | Some bottom \<Rightarrow>
           if js_le (rank config element) (rank config bottom)
           then Inr (elements @ [element], [[length elements]])
           else (case node_at elements (last stack) of
               None \<Rightarrow> Inl TypeError
             | Some parent \<Rightarrow>
                 if js_gt (rank config element) (rank config parent)
                 then pushChild elements stack element
                 else (case popWhile config element elements stack of
                     Inl e \<Rightarrow> Inl e
                   | Inr stack' \<Rightarrow> pushChild elements stack' element))))"

fun nestSectionLoop ::
  "StructureConfig \<Rightarrow> TeXElement list \<Rightarrow> TeXElement list \<times> ref list
    \<Rightarrow> error + (TeXElement list \<times> ref list)" where
  "nestSectionLoop config [] state = Inr state"
| "nestSectionLoop config (element # rest) state =
    (case nestSectionStep config state element of
       Inl e \<Rightarrow> Inl e
     | Inr state' \<Rightarrow> nestSectionLoop config rest state')"

definition nestSection :: "StructureConfig \<Rightarrow> TeXElement list \<Rightarrow> error + TeXElement list" where
  "nestSection config struct =
    (case nestSectionLoop config struct ([], []) of
       Inl e \<Rightarrow> Inl e
     | Inr (elements, stack) \<Rightarrow> Inr elements)"

section \<open>Numbering: addFloatNumber\<close>

text \<open>
  The object \<^verbatim>\<open>counter\<close> is shared by all recursive calls, so the function returns
  it with the relabelled forest. \<open>insertNumber\<close> is the rewriting of one label:
  \<^verbatim>\<open>parts = label.split(':'); parts[0] += ' ' + n.toString(); parts.join(':')\<close>. Names
  that JavaScript finds on \<^verbatim>\<open>Object.prototype\<close> are outside the declared type
  \<^verbatim>\<open>{[env: string]: number}\<close> of the counter and outside this model.
\<close>

definition insertNumber :: "string \<Rightarrow> nat \<Rightarrow> string" where
  "insertNumber l n =
    (let parts = split l CHR '':'' in
     join ((hd parts @ '' '' @ toString n) # tl parts) CHR '':'')"

fun addFloatNumber ::
  "TeXElement list \<Rightarrow> (string \<Rightarrow> nat option)
    \<Rightarrow> TeXElement list \<times> (string \<Rightarrow> nat option)" where
  "addFloatNumber [] counter = ([], counter)"
| "addFloatNumber (TeXElement a cs # rest) counter =
    (let (a', counter1) =
           (if type a = Environment \<and> name a \<noteq> ''macro'' \<and> name a \<noteq> ''environment''
            then (let n = (case counter (name a) of None \<Rightarrow> 0 | Some k \<Rightarrow> k) + 1
                  in (a\<lparr>label := insertNumber (label a) n\<rparr>, counter(name a \<mapsto> n)))
            else (a, counter));
         (cs', counter2) = addFloatNumber cs counter1;
         (rest', counter3) = addFloatNumber rest counter2
     in (TeXElement a' cs' # rest', counter3))"

section \<open>Numbering: addSectionNumber\<close>

text \<open>
  \<^verbatim>\<open>Math.min(...ranks)\<close> is \<^verbatim>\<open>Infinity\<close> for an empty list. \<^verbatim>\<open>'0.'.repeat(k)\<close>
  raises a RangeError for a negative or infinite \<open>k\<close>, and
  \<^verbatim>\<open>counter[rank].toString()\<close> a TypeError when the counter has no entry for the rank.
  The operands of \<^verbatim>\<open>tag + '0.'.repeat(...) + counter[...].toString()\<close> are evaluated
  from left to right.
\<close>

datatype lowestRank = Finite nat | Infinity

definition mathMin :: "nat list \<Rightarrow> lowestRank" where
  "mathMin ns = (case ns of [] \<Rightarrow> Infinity | n # ms \<Rightarrow> Finite (fold min ms n))"

fun addSectionNumberLoop ::
    "StructureConfig \<Rightarrow> string \<Rightarrow> lowestRank \<Rightarrow> (nat \<Rightarrow> nat option) \<Rightarrow> TeXElement list
      \<Rightarrow> error + TeXElement list"
  and addSectionNumber ::
    "StructureConfig \<Rightarrow> TeXElement list \<Rightarrow> string option \<Rightarrow> nat option
      \<Rightarrow> error + TeXElement list" where
  "addSectionNumberLoop config tag lowest counter [] = Inr []"
| "addSectionNumberLoop config tag lowest counter (TeXElement a cs # rest) =
    (case secIndex config (name a) of
       None \<Rightarrow>
         (case addSectionNumberLoop config tag lowest counter rest of
            Inl e \<Rightarrow> Inl e
          | Inr rest' \<Rightarrow> Inr (TeXElement a cs # rest'))
     | Some r \<Rightarrow>
         (let counter' =
                (if type a = Section
                 then counter(r \<mapsto> (case counter r of None \<Rightarrow> 0 | Some k \<Rightarrow> k) + 1)
                 else counter)
          in case lowest of
               Infinity \<Rightarrow> Inl RangeError
             | Finite l \<Rightarrow>
                 if r < l then Inl RangeError
                 else (case counter' r of
                         None \<Rightarrow> Inl TypeError
                       | Some k \<Rightarrow>
                           (let sectionNumber = tag @ concat (replicate (r - l) ''0.'') @ toString k;
                                a' = a\<lparr>label := (if type a = Section then sectionNumber else ''*'')
                                                  @ '' '' @ label a\<rparr>
                            in case (if cs \<noteq> []
                                     then addSectionNumber config cs
                                            (Some (sectionNumber @ ''.'')) (Some (r + 1))
                                     else Inr cs) of
                                 Inl e \<Rightarrow> Inl e
                               | Inr cs' \<Rightarrow>
                                   (case addSectionNumberLoop config tag lowest counter' rest of
                                      Inl e \<Rightarrow> Inl e
                                    | Inr rest' \<Rightarrow> Inr (TeXElement a' cs' # rest'))))))"
| "addSectionNumber config struct tag lowest =
    addSectionNumberLoop config
      (case tag of None \<Rightarrow> [] | Some t \<Rightarrow> t)
      (case lowest of
         Some l \<Rightarrow> Finite l
       | None \<Rightarrow> mathMin (List.map_filter (\<lambda>element. secIndex config (name (attrs element))) struct))
      Map.empty struct"

section \<open>The entry point\<close>

text \<open>
  \<^verbatim>\<open>refreshLaTeXModelConfig\<close>: \<^verbatim>\<open>secIndex[cmd] = index\<close> for every command of
  every group of the hierarchy, a later group overwriting an earlier one.
\<close>

fun secIndexOf :: "string list \<Rightarrow> nat \<Rightarrow> (string \<Rightarrow> nat option) \<Rightarrow> string \<Rightarrow> nat option" where
  "secIndexOf [] i m = m"
| "secIndexOf (sec # hierarchy) i m =
    secIndexOf hierarchy (i + 1) (fold (\<lambda>cmd m'. m'(cmd \<mapsto> i)) (split sec CHR ''|'') m)"

definition refreshLaTeXModelConfig :: "World \<Rightarrow> bool \<Rightarrow> StructureConfig" where
  "refreshLaTeXModelConfig world sub =
    \<lparr>cmds = viewOutlineCommands world,
     envs = (if viewOutlineFloatsEnabled world then [''figure'', ''table'', ''frame'']
             else [''frame'']),
     secs = concat (map (\<lambda>sec. split sec CHR ''|'') (viewOutlineSections world)),
     secIndex = secIndexOf (viewOutlineSections world) 0 Map.empty,
     texDirs = latexTexDirs world,
     subFile = sub\<rparr>"

text \<open>
  \<^verbatim>\<open>construct(filePath, subFile)\<close>. With \<^verbatim>\<open>subFile\<close> false the forest is
  \<^verbatim>\<open>structs[filePath]\<close>, which is \<^verbatim>\<open>undefined\<close> when the extraction stored nothing;
  \<^verbatim>\<open>nestNonSection\<close> then iterates over \<^verbatim>\<open>undefined\<close>, a TypeError. The two
  sequential phases share the fuel.
\<close>

definition numberPasses :: "World \<Rightarrow> StructureConfig \<Rightarrow> bool \<Rightarrow> TeXElement list \<Rightarrow> error + TeXElement list" where
  "numberPasses world config sub struct =
    (let struct1 = (if sub \<and> viewOutlineFloatsNumberEnabled world
                    then fst (addFloatNumber struct Map.empty) else struct)
     in if sub \<and> viewOutlineNumbersEnabled world
        then addSectionNumber config struct1 None None
        else Inr struct1)"

definition nestAndNumber :: "World \<Rightarrow> StructureConfig \<Rightarrow> bool \<Rightarrow> TeXElement list \<Rightarrow> error + TeXElement list" where
  "nestAndNumber world config sub struct =
    (case nestSection config (nestNonSection struct) of
       Inl e \<Rightarrow> Inl e
     | Inr struct' \<Rightarrow> numberPasses world config sub struct')"

definition construct ::
  "nat \<Rightarrow> World \<Rightarrow> string option \<Rightarrow> bool \<Rightarrow> (error + TeXElement list) option" where
  "construct fuel world fileArg sub =
    (case (case fileArg of None \<Rightarrow> rootFile world | Some f \<Rightarrow> Some f) of
       None \<Rightarrow> Some (Inr [])
     | Some file \<Rightarrow>
         (let config = refreshLaTeXModelConfig world sub in
          case constructFile fuel world config file Map.empty of
            None \<Rightarrow> None
          | Some (Inl e) \<Rightarrow> Some (Inl e)
          | Some (Inr structs) \<Rightarrow>
              (if sub
               then (case insertSubFile fuel world structs of
                       None \<Rightarrow> None
                     | Some struct \<Rightarrow> Some (nestAndNumber world config sub struct))
               else (case structs file of
                       None \<Rightarrow> Some (Inl TypeError)
                     | Some struct \<Rightarrow> Some (nestAndNumber world config sub struct)))))"

section \<open>Observations used in the statements\<close>

text \<open>
  The elements of a forest in depth-first order, parents before children, each given by
  its scalar fields.
\<close>

fun preorder :: "TeXElement \<Rightarrow> Attrs list" where
  "preorder (TeXElement a cs) = a # concat (map preorder cs)"

definition flat :: "TeXElement list \<Rightarrow> Attrs list" where
  "flat es = concat (map preorder es)"

text \<open>
  Section-bearing elements, and the elements that \<^verbatim>\<open>nestSection\<close> puts on its stack
  (its first test lets every other type pass through).
\<close>

definition sectionBearing :: "Attrs \<Rightarrow> bool" where
  "sectionBearing a = (type a = Section \<or> type a = SectionAst)"

definition participates :: "TeXElement \<Rightarrow> bool" where
  "participates e =
    (type (attrs e) = Section \<or> type (attrs e) = SectionAst \<or> type (attrs e) = SubFile)"

text \<open>
  The rank condition on a parent and one of its children, and on every such pair of a
  tree: where both are section-bearing and both names have a configured rank, the rank of
  the child is the greater one.
\<close>

definition pairOk :: "StructureConfig \<Rightarrow> Attrs \<Rightarrow> Attrs \<Rightarrow> bool" where
  "pairOk config parent child =
    (sectionBearing parent \<and> sectionBearing child \<longrightarrow>
      (case (secIndex config (name parent), secIndex config (name child)) of
         (Some p, Some c) \<Rightarrow> p < c
       | _ \<Rightarrow> True))"

fun ranksOk :: "StructureConfig \<Rightarrow> TeXElement \<Rightarrow> bool" where
  "ranksOk config (TeXElement a cs) =
    (\<forall>c\<in>set cs. pairOk config a (attrs c) \<and> ranksOk config c)"

text \<open>
  The stack of \<^verbatim>\<open>nestSection\<close> as the scalar fields of the elements it refers to, from
  the outermost to the innermost, and the ranks of its section-bearing entries.
\<close>

definition stackAttrs :: "TeXElement list \<Rightarrow> ref list \<Rightarrow> Attrs list" where
  "stackAttrs es stack = map attrs (List.map_filter (node_at es) stack)"

definition openSectionRanks ::
  "StructureConfig \<Rightarrow> TeXElement list \<Rightarrow> ref list \<Rightarrow> nat option list" where
  "openSectionRanks config es stack =
    map (\<lambda>a. secIndex config (name a)) (filter sectionBearing (stackAttrs es stack))"

text \<open>
  The top level of a forest as \<^verbatim>\<open>nestNonSection\<close> leaves it for \<^verbatim>\<open>nestSection\<close>
  in \<^verbatim>\<open>construct\<close>: every element after the first section-bearing one is
  section-bearing, so no \<^verbatim>\<open>SubFile\<close> follows a section; and the section-bearing
  elements have a configured rank, as every element has that \<^verbatim>\<open>parseNode\<close> makes from
  a macro of \<^verbatim>\<open>config.macros.secs\<close>. The flag says whether a section was seen.
\<close>

fun pipelineShape :: "StructureConfig \<Rightarrow> bool \<Rightarrow> TeXElement list \<Rightarrow> bool" where
  "pipelineShape config seen [] = True"
| "pipelineShape config seen (e # es) =
    (if sectionBearing (attrs e) then rank config e \<noteq> None \<and> pipelineShape config True es
     else if type (attrs e) = SubFile then \<not> seen \<and> pipelineShape config seen es
     else pipelineShape config seen es)"

text \<open>
  A forest as the extraction and the splice leave it: a section-bearing element has no
  children (\<^verbatim>\<open>parseNode\<close> makes it from a macro, which has no nodes below it) and
  its name has a configured rank.
\<close>

fun leafSections :: "StructureConfig \<Rightarrow> TeXElement \<Rightarrow> bool" where
  "leafSections config (TeXElement a cs) =
    ((sectionBearing a \<longrightarrow> cs = [] \<and> secIndex config (name a) \<noteq> None) \<and>
     (\<forall>c\<in>set cs. leafSections config c))"


text \<open>The elements that \<^verbatim>\<open>addFloatNumber\<close> numbers.\<close>

definition isFloat :: "Attrs \<Rightarrow> bool" where
  "isFloat a = (type a = Environment \<and> name a \<noteq> ''macro'' \<and> name a \<noteq> ''environment'')"


section \<open>The section numbering of the specification\<close>

text \<open>
  Section 4.5 of the specification describes the recursion of the section numbering as
  one that enters the children ``with the new prefix extended by \<^verbatim>\<open>computedNumber + "."\<close>
  and a fresh lowest-rank computed from the children's own ranks''.
  \<open>addSectionNumberSpec\<close> follows these words: it is \<open>addSectionNumber\<close> with the rank
  argument of the recursive call left out, so that the child scope computes its own
  minimum. It is used only to compare the code with the specification.
\<close>

fun addSectionNumberSpecLoop ::
    "StructureConfig \<Rightarrow> string \<Rightarrow> lowestRank \<Rightarrow> (nat \<Rightarrow> nat option) \<Rightarrow> TeXElement list
      \<Rightarrow> error + TeXElement list"
  and addSectionNumberSpec ::
    "StructureConfig \<Rightarrow> TeXElement list \<Rightarrow> string option \<Rightarrow> nat option
      \<Rightarrow> error + TeXElement list" where
  "addSectionNumberSpecLoop config tag lowest counter [] = Inr []"
| "addSectionNumberSpecLoop config tag lowest counter (TeXElement a cs # rest) =
    (case secIndex config (name a) of
       None \<Rightarrow>
         (case addSectionNumberSpecLoop config tag lowest counter rest of
            Inl e \<Rightarrow> Inl e
          | Inr rest' \<Rightarrow> Inr (TeXElement a cs # rest'))
     | Some r \<Rightarrow>
         (let counter' =
                (if type a = Section
                 then counter(r \<mapsto> (case counter r of None \<Rightarrow> 0 | Some k \<Rightarrow> k) + 1)
                 else counter)
          in case lowest of
               Infinity \<Rightarrow> Inl RangeError
             | Finite l \<Rightarrow>
                 if r < l then Inl RangeError
                 else (case counter' r of
                         None \<Rightarrow> Inl TypeError
                       | Some k \<Rightarrow>
                           (let sectionNumber = tag @ concat (replicate (r - l) ''0.'') @ toString k;
                                a' = a\<lparr>label := (if type a = Section then sectionNumber else ''*'')
                                                  @ '' '' @ label a\<rparr>
                            in case (if cs \<noteq> []
                                     then addSectionNumberSpec config cs
                                            (Some (sectionNumber @ ''.'')) None
                                     else Inr cs) of
                                 Inl e \<Rightarrow> Inl e
                               | Inr cs' \<Rightarrow>
                                   (case addSectionNumberSpecLoop config tag lowest counter' rest of
                                      Inl e \<Rightarrow> Inl e
                                    | Inr rest' \<Rightarrow> Inr (TeXElement a' cs' # rest'))))))"
| "addSectionNumberSpec config struct tag lowest =
    addSectionNumberSpecLoop config
      (case tag of None \<Rightarrow> [] | Some t \<Rightarrow> t)
      (case lowest of
         Some l \<Rightarrow> Finite l
       | None \<Rightarrow> mathMin (List.map_filter (\<lambda>element. secIndex config (name (attrs element))) struct))
      Map.empty struct"

section \<open>Concrete inputs\<close>

text \<open>
  Inputs for the closed theorems below. \<open>el\<close> makes an element of
  \<^verbatim>\<open>/main.tex\<close> on line 0; \<open>exConfig\<close> ranks \<^verbatim>\<open>part\<close>, \<^verbatim>\<open>chapter\<close>,
  \<^verbatim>\<open>section\<close> and \<^verbatim>\<open>subsection\<close> from 0 to 3.
\<close>

definition el :: "TeXElementType \<Rightarrow> string \<Rightarrow> string \<Rightarrow> TeXElement list \<Rightarrow> TeXElement" where
  "el t n l cs =
    TeXElement \<lparr>type = t, name = n, label = l, index = 0, lineFr = 0, lineTo = 0,
                filePath = ''/main.tex''\<rparr> cs"

definition exConfig :: StructureConfig where
  "exConfig =
    \<lparr>cmds = [], envs = [''figure'', ''table'', ''frame''],
     secs = [''part'', ''chapter'', ''section'', ''subsection''],
     secIndex = [''part'' \<mapsto> 0, ''chapter'' \<mapsto> 1, ''section'' \<mapsto> 2, ''subsection'' \<mapsto> 3],
     texDirs = [], subFile = False\<rparr>"



text \<open>An unexpanded inclusion followed by sections of several ranks.\<close>

definition exNest :: "TeXElement list" where
  "exNest =
    [el SubFile ''input'' ''ch1'' [], el Section ''section'' ''A'' [],
     el Section ''subsection'' ''B'' [], el Section ''chapter'' ''C'' [],
     el Section ''subsection'' ''D'' [], el Section ''section'' ''E'' []]"

text \<open>
  A starred section before the first numbered section of its rank:
  \<^verbatim>\<open>\section*{Preface} \section{Intro}\<close>.
\<close>

definition exStarredFirst :: "TeXElement list" where
  "exStarredFirst = [el SectionAst ''section'' ''Preface'' [], el Section ''section'' ''Intro'' []]"

text \<open>A subsection directly under a chapter: the child is two ranks below its parent.\<close>

definition exGap :: "TeXElement list" where
  "exGap = [el Section ''chapter'' ''One'' [el Section ''subsection'' ''Deep'' []]]"


text \<open>
  A world in which no file has a source, and variations of it. \<^verbatim>\<open>resolveFile\<close>
  finds \<^verbatim>\<open>/arg.tex\<close> for every non-empty argument; the numbering passes are switched
  off. \<open>inputOf\<close> and \<open>sectionOf\<close> are the nodes of \<^verbatim>\<open>\input{arg}\<close> and of
  \<^verbatim>\<open>\section{title}\<close>.
\<close>

definition exWorld :: World where
  "exWorld =
    \<lparr>rootFile = Some ''/main.tex'', dirtyText = (\<lambda>f. None), unifiedParse = (\<lambda>text. []),
     cached = (\<lambda>f. None), execChild = (\<lambda>content f root. []),
     resolveFile = (\<lambda>dirs arg. if arg = [] then None else Some (''/'' @ arg @ ''.tex'')),
     dirname = (\<lambda>f. ''/''), pathJoin = (\<lambda>a b. a @ b),
     viewOutlineCommands = [], viewOutlineFloatsEnabled = True,
     viewOutlineFloatsCaptionEnabled = True, viewOutlineFloatsNumberEnabled = False,
     viewOutlineNumbersEnabled = False,
     viewOutlineSections = [''part'', ''chapter'', ''section'', ''subsection''],
     latexTexDirs = []\<rparr>"

definition inputOf :: "string \<Rightarrow> Node" where
  "inputOf arg = AstMacro None ''input'' (Some [Argument ''{'' ''}'' [AstString None arg]])"

definition sectionOf :: "string \<Rightarrow> Node" where
  "sectionOf title =
    AstMacro None ''section''
      (Some [Argument [] [] [], Argument [] [] [], Argument ''{'' ''}'' [AstString None title]])"

text \<open>The root file includes itself: \<^verbatim>\<open>/main.tex\<close> is \<^verbatim>\<open>\input{main}\<close>.\<close>

definition exSelfWorld :: World where
  "exSelfWorld =
    exWorld\<lparr>cached := [''/main.tex'' \<mapsto> (Some ''(text)'', Some [inputOf ''main''])]\<rparr>"



text \<open>
  A root file with \<^verbatim>\<open>\section{A} \subsection{B} \section{C}\<close>.
\<close>

definition subsectionOf :: "string \<Rightarrow> Node" where
  "subsectionOf title =
    AstMacro None ''subsection''
      (Some [Argument [] [] [], Argument [] [] [], Argument ''{'' ''}'' [AstString None title]])"

definition exDocWorld :: World where
  "exDocWorld =
    exWorld\<lparr>cached := [''/main.tex'' \<mapsto>
      (Some ''(text)'', Some [sectionOf ''A'', subsectionOf ''B'', sectionOf ''C''])]\<rparr>"



section \<open>Invariants of the proofs\<close>

text \<open>
  Invariants of the loop of \<^verbatim>\<open>nestSection\<close>. \<open>linked es r r'\<close>: the place \<open>r'\<close>
  is the last child of the element at \<open>r\<close>. \<open>chain\<close>: the stack starts at a
  top-level element and each entry is the last child of the entry before it.
  \<open>rightmost\<close>: a place on the rightmost branch of the forest. \<open>openOrder\<close>: the
  stack is a run of \<^verbatim>\<open>SubFile\<close> entries followed by section-bearing entries of
  strictly increasing rank.
\<close>

definition linked :: "TeXElement list \<Rightarrow> ref \<Rightarrow> ref \<Rightarrow> bool" where
  "linked es r r' =
    (case node_at es r of None \<Rightarrow> False
     | Some t \<Rightarrow> children t \<noteq> [] \<and> r' = r @ [length (children t) - 1])"

definition chain :: "TeXElement list \<Rightarrow> ref list \<Rightarrow> bool" where
  "chain es stack =
    ((stack = [] \<or> (\<exists>i<length es. hd stack = [i])) \<and> successively (linked es) stack)"


definition rk :: "StructureConfig \<Rightarrow> Attrs \<Rightarrow> nat option" where
  "rk config a = secIndex config (name a)"

definition openOrder :: "StructureConfig \<Rightarrow> bool \<Rightarrow> Attrs list \<Rightarrow> bool" where
  "openOrder config seen S = (\<exists>A B. S = A @ B \<and> (\<forall>a\<in>set A. type a = SubFile) \<and>
      (\<forall>b\<in>set B. sectionBearing b \<and> rk config b \<noteq> None) \<and>
      sorted_wrt (\<lambda>x y. js_gt (rk config y) (rk config x)) B \<and> (\<not> seen \<longrightarrow> B = []))"




text \<open>
  For \<^verbatim>\<open>nestNonSection\<close>: no element and child are both section-bearing, and the
  invariant of the loop.
\<close>

fun noSectionPair :: "TeXElement \<Rightarrow> bool" where
  "noSectionPair (TeXElement a cs) =
    (\<forall>c\<in>set cs. \<not> (sectionBearing a \<and> sectionBearing (attrs c)) \<and> noSectionPair c)"

definition nnsInv :: "StructureConfig \<Rightarrow> TeXElement list \<Rightarrow> nat option \<Rightarrow> bool" where
  "nnsInv config elements cur =
    ((\<forall>e\<in>set elements. noSectionPair e) \<and> pipelineShape config False elements \<and>
     (case cur of
        None \<Rightarrow> \<forall>e\<in>set elements. \<not> sectionBearing (attrs e)
      | Some i \<Rightarrow> Suc i = length elements \<and> sectionBearing (attrs (elements ! i))))"


text \<open>
  For the extraction: every name of \<^verbatim>\<open>config.macros.secs\<close> has a rank (as
  \<^verbatim>\<open>refreshLaTeXModelConfig\<close> builds both from the same hierarchy), and every forest
  of the cache satisfies \<open>leafSections\<close>.
\<close>

definition configOk :: "StructureConfig \<Rightarrow> bool" where
  "configOk config = (\<forall>n\<in>set (secs config). secIndex config n \<noteq> None)"

definition cacheOk :: "StructureConfig \<Rightarrow> FileStructureCache \<Rightarrow> bool" where
  "cacheOk config structs = (\<forall>f s. structs f = Some s \<longrightarrow> (\<forall>e\<in>set s. leafSections config e))"

text \<open>
  For the numbering passes, which rewrite labels only: two trees of the same shape whose
  elements agree in type and name.
\<close>

fun sameKind :: "TeXElement \<Rightarrow> TeXElement \<Rightarrow> bool" where
  "sameKind (TeXElement a cs) (TeXElement b ds) =
    (type a = type b \<and> name a = name b \<and> list_all2 sameKind cs ds)"
section \<open>Lemmas on the nesting passes\<close>

lemma node_at_append: "node_at es r = Some x \<Longrightarrow> node_at (es @ [e]) r = Some x"
  by (induction es r rule: node_at.induct) (auto simp: nth_append split: if_splits)

lemma node_at_snoc:
  "r \<noteq> [] \<Longrightarrow> node_at es (r @ [j]) =
    (case node_at es r of None \<Rightarrow> None
          | Some t \<Rightarrow> if j < length (children t) then Some (children t ! j) else None)"
  by (induction es r rule: node_at.induct) auto

lemma node_at_Cons:
  "node_at es (i # r) =
     (if i < length es then (if r = [] then Some (es ! i) else node_at (children (es ! i)) r) else None)"
  by (cases r) auto

lemma length_push_at: "q \<noteq> [] \<Longrightarrow> length (push_at es q e) = length es"
  by (cases q) auto

lemma node_at_push_at_other:
  "node_at es r = Some x \<Longrightarrow> r \<noteq> q \<Longrightarrow>
    \<exists>y. node_at (push_at es q e) r = Some y \<and> attrs y = attrs x \<and>
        length (children y) = length (children x)"
proof (induction r arbitrary: es q)
  case Nil
  then show ?case by simp
next
  case (Cons i r)
  from Cons.prems have i: "i < length es" by (simp add: node_at_Cons split: if_splits)
  show ?case
  proof (cases q)
    case Nil
    with Cons.prems show ?thesis using node_at_append[of es "i # r" x e] by simp
  next
    case q: (Cons k q')
    show ?thesis
    proof (cases "k = i")
      case False
      with Cons.prems q i show ?thesis by (auto simp: node_at_Cons)
    next
      case True
      show ?thesis
      proof (cases "r = []")
        case True
        with \<open>k = i\<close> Cons.prems q i show ?thesis by (auto simp: node_at_Cons length_push_at)
      next
        case False
        with Cons.prems i have "node_at (children (es ! i)) r = Some x" by (simp add: node_at_Cons)
        moreover have "r \<noteq> q'" using Cons.prems q \<open>k = i\<close> by simp
        ultimately obtain y where "node_at (push_at (children (es ! i)) q' e) r = Some y"
            "attrs y = attrs x" "length (children y) = length (children x)"
          using Cons.IH by blast
        with \<open>k = i\<close> q i False show ?thesis by (simp add: node_at_Cons)
      qed
    qed
  qed
qed

lemma node_at_push_at_same:
  "node_at es q = Some x \<Longrightarrow>
    node_at (push_at es q e) q = Some (TeXElement (attrs x) (children x @ [e]))"
proof (induction q arbitrary: es)
  case Nil
  then show ?case by simp
next
  case (Cons i q)
  then show ?case by (cases "q = []") (auto simp: node_at_Cons split: if_splits)
qed

lemma node_at_push_at_attrs:
  assumes "node_at es r = Some x"
  shows "\<exists>y. node_at (push_at es q e) r = Some y \<and> attrs y = attrs x"
proof (cases "r = q")
  case True
  with assms node_at_push_at_same[of es q x e] show ?thesis by simp
next
  case False
  with assms node_at_push_at_other[of es r x q e] show ?thesis by blast
qed

lemma linked_valid:
  assumes "linked es r r'"
  shows "r \<noteq> [] \<and> node_at es r \<noteq> None \<and> node_at es r' \<noteq> None"
proof -
  from assms obtain t where t: "node_at es r = Some t" "children t \<noteq> []"
     "r' = r @ [length (children t) - 1]"
    by (auto simp: linked_def split: option.splits)
  then have "r \<noteq> []" by auto
  with t show ?thesis by (simp add: node_at_snoc)
qed

lemma successively_snoc:
  "successively P (xs @ [x]) \<longleftrightarrow> successively P xs \<and> (xs = [] \<or> P (last xs) x)"
  by (auto simp: successively_append_iff)

lemma chain_single: "chain es [r] \<longleftrightarrow> (\<exists>i<length es. r = [i])"
  by (simp add: chain_def)

lemma chain_snoc:
  "stack \<noteq> [] \<Longrightarrow> chain es (stack @ [r]) \<longleftrightarrow> chain es stack \<and> linked es (last stack) r"
  by (auto simp: chain_def successively_snoc)

lemma chain_valid: "chain es stack \<Longrightarrow> r \<in> set stack \<Longrightarrow> node_at es r \<noteq> None"
proof (induction stack arbitrary: r rule: rev_induct)
  case Nil
  then show ?case by simp
next
  case (snoc x xs)
  show ?case
  proof (cases "xs = []")
    case True
    with snoc.prems show ?thesis by (auto simp: chain_single)
  next
    case False
    with snoc.prems have c: "chain es xs" and l: "linked es (last xs) x" by (auto simp: chain_snoc)
    show ?thesis
    proof (cases "r = x")
      case True
      with l show ?thesis using linked_valid by blast
    next
      case False
      with snoc.prems have "r \<in> set xs" by simp
      with c snoc.IH show ?thesis by blast
    qed
  qed
qed

lemma chain_butlast: "chain es stack \<Longrightarrow> chain es (butlast stack)"
proof (cases stack rule: rev_cases)
  case Nil
  then show "chain es stack \<Longrightarrow> chain es (butlast stack)" by simp
next
  case (snoc ys y)
  then show "chain es stack \<Longrightarrow> chain es (butlast stack)"
    by (cases "ys = []") (auto simp: chain_snoc chain_def successively_snoc)
qed

lemma take_butlast_le: "n \<le> length (butlast xs) \<Longrightarrow> take n (butlast xs) = take n xs"
  by (metis butlast_conv_take length_butlast min.absorb1 take_take)

lemma chain_take: "chain es stack \<Longrightarrow> chain es (take n stack)"
proof (induction "length stack - n" arbitrary: stack)
  case 0
  then show ?case by simp
next
  case (Suc k)
  have "chain es (butlast stack)" using Suc.prems by (rule chain_butlast)
  moreover have "k = length (butlast stack) - n" using Suc.hyps by simp
  ultimately have "chain es (take n (butlast stack))" using Suc.hyps(1) by blast
  moreover have "take n (butlast stack) = take n stack"
    using Suc.hyps(2) by (intro take_butlast_le) simp
  ultimately show ?case by simp
qed

lemma popWhile_result:
  assumes "stack \<noteq> []" and "\<forall>r\<in>set stack. node_at es r \<noteq> None"
    and "node_at es (hd stack) = Some b" and "\<not> js_le (rank cfg e) (rank cfg b)"
  shows "\<exists>n t. 0 < n \<and> n \<le> length stack \<and> popWhile cfg e es stack = Inr (take n stack) \<and>
          node_at es (last (take n stack)) = Some t \<and> \<not> js_le (rank cfg e) (rank cfg t)"
  using assms
proof (induction cfg e es stack rule: popWhile.induct)
  case (1 config element elements stack)
  from "1.prems" obtain t where t: "node_at elements (last stack) = Some t"
    by (metis last_in_set not_Some_eq)
  show ?case
  proof (cases "js_le (rank config element) (rank config t)")
    case False
    with t "1.prems"(1) show ?thesis
      by (intro exI[of _ "length stack"] exI[of _ t]) (simp add: popWhile.simps[of _ _ _ stack])
  next
    case True
    have ne: "butlast stack \<noteq> []"
    proof
      assume "butlast stack = []"
      with "1.prems"(1) have "last stack = hd stack"
        by (cases stack) (auto split: if_splits)
      with t "1.prems"(3,4) True show False by simp
    qed
    then have hd: "hd (butlast stack) = hd stack" by (cases stack) auto
    have "\<forall>r\<in>set (butlast stack). node_at elements r \<noteq> None"
      using "1.prems"(2) by (meson in_set_butlastD)
    with "1.IH"[OF "1.prems"(1) t True ne] hd "1.prems"(3,4)
    obtain n t' where n: "0 < n" "n \<le> length (butlast stack)"
      "popWhile config element elements (butlast stack) = Inr (take n (butlast stack))"
      "node_at elements (last (take n (butlast stack))) = Some t'"
      "\<not> js_le (rank config element) (rank config t')"
      by auto
    have "take n (butlast stack) = take n stack" using n(2) by (rule take_butlast_le)
    with n t True "1.prems"(1) show ?thesis
      by (intro exI[of _ n] exI[of _ t']) (simp add: popWhile.simps[of _ _ _ stack])
  qed
qed

lemma linked_append: "linked es r r' \<Longrightarrow> linked (es @ [e]) r r'"
  by (auto simp: linked_def node_at_append split: option.splits)

lemma chain_append: "chain es stack \<Longrightarrow> chain (es @ [e]) stack"
  unfolding chain_def
  by (auto intro: successively_mono[where P = "linked es"] linked_append simp: less_Suc_eq)

lemma linked_push_at: "linked es r r' \<Longrightarrow> r \<noteq> q \<Longrightarrow> linked (push_at es q e) r r'"
  using node_at_push_at_other[of es r _ q e]
  by (fastforce simp: linked_def split: option.splits)

lemma chain_lengths: "chain es (xs @ [y]) \<Longrightarrow> r \<in> set xs \<Longrightarrow> length r < length y"
proof (induction xs arbitrary: y r rule: rev_induct)
  case Nil
  then show ?case by simp
next
  case (snoc x xs)
  from snoc.prems have c: "chain es (xs @ [x])" and l: "linked es x y"
    using chain_snoc[of "xs @ [x]" es y] by auto
  from l have len: "length y = Suc (length x)"
    by (auto simp: linked_def split: option.splits)
  show ?case
  proof (cases "r = x")
    case True
    with len show ?thesis by simp
  next
    case False
    with snoc.prems have "r \<in> set xs" by simp
    with snoc.IH[OF c] len show ?thesis by fastforce
  qed
qed

lemma successively_strengthen:
  "successively P xs \<Longrightarrow> \<forall>x\<in>set (butlast xs). Q x \<Longrightarrow> successively (\<lambda>a b. P a b \<and> Q a) xs"
  by (induction xs rule: induct_list012) auto

lemma chain_push:
  assumes "chain es stack" and "stack \<noteq> []" and "node_at es (last stack) = Some t"
  shows "chain (push_at es (last stack) e) (stack @ [last stack @ [length (children t)]])"
proof -
  let ?q = "last stack" and ?es = "push_at es (last stack) e"
  have q: "?q \<noteq> []" using assms(3) by auto
  have "linked ?es ?q (?q @ [length (children t)])"
    using node_at_push_at_same[OF assms(3), of e] by (simp add: linked_def)
  moreover have "chain ?es stack"
  proof -
    obtain xs where xs: "stack = xs @ [?q]" using assms(2) by (metis append_butlast_last_id)
    have "successively (linked ?es) stack"
    proof (rule successively_mono[where P = "\<lambda>r r'. linked es r r' \<and> r \<noteq> ?q"])
      have "\<And>r. r \<in> set xs \<Longrightarrow> r \<noteq> ?q"
        using chain_lengths[of es xs ?q] assms(1) xs by force
      then have "\<And>r. r \<in> set (butlast stack) \<Longrightarrow> r \<noteq> ?q"
        using xs by (metis butlast_snoc)
      moreover have "successively (linked es) stack" using assms(1) by (simp add: chain_def)
      ultimately show "successively (\<lambda>r r'. linked es r r' \<and> r \<noteq> ?q) stack"
        using successively_strengthen[of "linked es" stack "\<lambda>r. r \<noteq> ?q"] by blast
    qed (auto intro: linked_push_at)
    moreover have "length ?es = length es" using q by (rule length_push_at)
    ultimately show ?thesis using assms(1,2) by (simp add: chain_def)
  qed
  ultimately show ?thesis using assms(2) by (simp add: chain_snoc)
qed

lemma nestSectionStep_cases:
  assumes "chain es stack"
  obtains
    (pass) "\<not> participates e" and "nestSectionStep cfg (es, stack) e = Inr (es @ [e], stack)"
  | (top) "participates e" and "nestSectionStep cfg (es, stack) e = Inr (es @ [e], [[length es]])"
  | (child) n t where "participates e" and "0 < n" and "n \<le> length stack"
      and "node_at es (last (take n stack)) = Some t"
      and "\<not> js_le (rank cfg e) (rank cfg t)"
      and "nestSectionStep cfg (es, stack) e =
            Inr (push_at es (last (take n stack)) e,
                 take n stack @ [last (take n stack) @ [length (children t)]])"
proof (cases "participates e")
  case False
  then show ?thesis using pass by (simp add: participates_def)
next
  case p: True
  show ?thesis
  proof (cases "stack = []")
    case True
    with p show ?thesis using top by (simp add: participates_def)
  next
    case ne: False
    have valid: "\<forall>r\<in>set stack. node_at es r \<noteq> None" using assms chain_valid by blast
    with ne obtain b where b: "node_at es (hd stack) = Some b" by (metis hd_in_set not_Some_eq)
    from valid ne obtain t where t: "node_at es (last stack) = Some t"
      by (metis last_in_set not_Some_eq)
    show ?thesis
    proof (cases "js_le (rank cfg e) (rank cfg b)")
      case True
      with p ne b show ?thesis using top by (auto simp: participates_def)
    next
      case nle: False
      show ?thesis
      proof (cases "js_gt (rank cfg e) (rank cfg t)")
        case True
        then have "\<not> js_le (rank cfg e) (rank cfg t)"
          by (cases "rank cfg e"; cases "rank cfg t") auto
        moreover have "nestSectionStep cfg (es, stack) e =
            Inr (push_at es (last stack) e, stack @ [last stack @ [length (children t)]])"
          using p ne b nle t True by (auto simp: participates_def pushChild_def)
        ultimately show ?thesis using child[of "length stack" t] p ne t by simp
      next
        case False
        from popWhile_result[OF ne valid b nle] obtain n t' where
          n: "0 < n" "n \<le> length stack" "popWhile cfg e es stack = Inr (take n stack)"
             "node_at es (last (take n stack)) = Some t'" "\<not> js_le (rank cfg e) (rank cfg t')"
          by blast
        then have "take n stack \<noteq> []" using ne by auto
        then have "nestSectionStep cfg (es, stack) e =
            Inr (push_at es (last (take n stack)) e,
                 take n stack @ [last (take n stack) @ [length (children t')]])"
          using p ne b nle t False n by (auto simp: participates_def pushChild_def)
        with n p show ?thesis using child[of n t'] by blast
      qed
    qed
  qed
qed

lemma nestSectionStep_chain:
  assumes "chain es stack"
  shows "\<exists>es' stack'. nestSectionStep cfg (es, stack) e = Inr (es', stack') \<and> chain es' stack'"
  using assms
proof (cases rule: nestSectionStep_cases[of es stack e cfg])
  case pass
  then show ?thesis using assms chain_append by auto
next
  case top
  then show ?thesis by (auto simp: chain_single)
next
  case (child n t)
  have "chain es (take n stack)" using assms by (rule chain_take)
  moreover have "take n stack \<noteq> []" using child(2,3) by auto
  ultimately show ?thesis using child chain_push by blast
qed

lemma flat_simps [simp]:
  "flat [] = []" "flat (e # es) = preorder e @ flat es" "flat (xs @ ys) = flat xs @ flat ys"
  by (simp_all add: flat_def)

lemma preorder_TeXElement [simp]: "preorder (TeXElement a cs) = a # flat cs"
  by (simp add: flat_def)

declare preorder.simps [simp del]

lemma preorder_conv: "preorder e = attrs e # flat (children e)"
  by (cases e) simp

lemma flat_update:
  "i < length es \<Longrightarrow> flat (es[i := x]) = flat (take i es) @ preorder x @ flat (drop (Suc i) es)"
  by (simp add: upd_conv_take_nth_drop)

lemma flat_split:
  "i < length es \<Longrightarrow> flat es = flat (take i es) @ preorder (es ! i) @ flat (drop (Suc i) es)"
  using flat_simps(3)[of "take i es" "es ! i # drop (Suc i) es"]
  by (simp add: id_take_nth_drop[symmetric])

lemma mset_flat_push_at:
  "node_at es q \<noteq> None \<Longrightarrow> mset (flat (push_at es q e)) = mset (flat es) + mset (preorder e)"
proof (induction q arbitrary: es)
  case Nil
  then show ?case by simp
next
  case (Cons i q)
  from Cons.prems have i: "i < length es" by (simp add: node_at_Cons split: if_splits)
  show ?case
  proof (cases "q = []")
    case True
    with i show ?thesis
      by (simp add: flat_update flat_split[OF i] preorder_conv[of "es ! i"])
  next
    case False
    with Cons.prems i have "node_at (children (es ! i)) q \<noteq> None" by (simp add: node_at_Cons)
    from Cons.IH[OF this] i show ?thesis
      by (simp add: flat_update flat_split[OF i] preorder_conv[of "es ! i"])
  qed
qed






lemma ranksOk_conv:
  "ranksOk config e = (\<forall>c\<in>set (children e). pairOk config (attrs e) (attrs c) \<and> ranksOk config c)"
  by (cases e) simp

lemma in_set_updD: "x \<in> set (xs[i := y]) \<Longrightarrow> x = y \<or> x \<in> set xs"
  by (metis in_set_conv_nth length_list_update nth_list_update_eq nth_list_update_neq)

lemma ranksOk_push_at:
  assumes "\<forall>x\<in>set es. ranksOk config x" and "node_at es q = Some t"
    and "pairOk config (attrs t) (attrs e)" and "ranksOk config e"
  shows "\<forall>x\<in>set (push_at es q e). ranksOk config x"
  using assms
proof (induction q arbitrary: es)
  case Nil
  then show ?case by simp
next
  case (Cons i q)
  from Cons.prems(2) have i: "i < length es" by (simp add: node_at_Cons split: if_splits)
  then have ei: "ranksOk config (es ! i)" using Cons.prems(1) by simp
  have "ranksOk config (TeXElement (attrs (es ! i)) (push_at (children (es ! i)) q e))"
  proof (cases "q = []")
    case True
    with Cons.prems i have "t = es ! i" by (simp add: node_at_Cons)
    with True ei Cons.prems(3,4) show ?thesis by (auto simp: ranksOk_conv[of _ "es ! i"])
  next
    case False
    with Cons.prems(2) i have n: "node_at (children (es ! i)) q = Some t" by (simp add: node_at_Cons)
    have c: "\<forall>x\<in>set (children (es ! i)). ranksOk config x" using ei ranksOk_conv by blast
    have IH: "\<forall>x\<in>set (push_at (children (es ! i)) q e). ranksOk config x"
      using Cons.IH[OF c n Cons.prems(3,4)] .
    have "\<forall>c\<in>set (push_at (children (es ! i)) q e). pairOk config (attrs (es ! i)) (attrs c)"
    proof
      fix c assume cin: "c \<in> set (push_at (children (es ! i)) q e)"
      obtain j q' where q: "q = j # q'" using False by (cases q) auto
      from n q have j: "j < length (children (es ! i))" by (simp add: node_at_Cons split: if_splits)
      from cin q j have "c = TeXElement (attrs (children (es ! i) ! j)) (push_at (children (children (es ! i) ! j)) q' e)
           \<or> c \<in> set (children (es ! i))"
        using in_set_updD by fastforce
      then show "pairOk config (attrs (es ! i)) (attrs c)"
        using ei j by (auto simp: ranksOk_conv[of _ "es ! i"])
    qed
    with IH show ?thesis by simp
  qed
  with Cons.prems(1) i show ?case by (auto dest!: in_set_updD)
qed

lemma not_js_le_pairOk:
  "\<not> js_le (rank config e) (rank config t) \<Longrightarrow> pairOk config (attrs t) (attrs e)"
  by (cases "rank config e"; cases "rank config t") (auto simp: pairOk_def rank_def)

lemma nestSectionLoop_props:
  assumes "chain es stack"
  shows "\<exists>es' stack'. nestSectionLoop config xs (es, stack) = Inr (es', stack') \<and> chain es' stack' \<and>
          mset (flat es') = mset (flat es) + mset (flat xs) \<and>
          ((\<forall>x\<in>set es. ranksOk config x) \<and> (\<forall>x\<in>set xs. ranksOk config x) \<longrightarrow>
             (\<forall>x\<in>set es'. ranksOk config x))"
  using assms
proof (induction xs arbitrary: es stack)
  case Nil
  then show ?case by simp
next
  case (Cons e xs)
  from Cons.prems show ?case
  proof (cases rule: nestSectionStep_cases[of es stack e config])
    case pass
    have "chain (es @ [e]) stack" using Cons.prems by (rule chain_append)
    from Cons.IH[OF this] pass(2) show ?thesis by auto
  next
    case top
    have "chain (es @ [e]) [[length es]]" by (simp add: chain_single)
    from Cons.IH[OF this] top(2) show ?thesis by auto
  next
    case (child n t)
    let ?q = "last (take n stack)"
    have ne: "take n stack \<noteq> []" using child(2,3) by auto
    have c: "chain (push_at es ?q e) (take n stack @ [?q @ [length (children t)]])"
      using chain_push[OF chain_take[OF Cons.prems] ne child(4)] .
    have m: "mset (flat (push_at es ?q e)) = mset (flat es) + mset (preorder e)"
      using child(4) by (simp add: mset_flat_push_at)
    have r: "(\<forall>x\<in>set es. ranksOk config x) \<Longrightarrow> ranksOk config e \<Longrightarrow>
          (\<forall>x\<in>set (push_at es ?q e). ranksOk config x)"
      using ranksOk_push_at[OF _ child(4) not_js_le_pairOk[OF child(5)]] by blast
    from Cons.IH[OF c] child(6) m r show ?thesis by auto
  qed
qed


lemma sa_valid:
  "\<forall>r\<in>set stack. node_at es r \<noteq> None \<Longrightarrow>
     stackAttrs es stack = map (\<lambda>r. attrs (the (node_at es r))) stack"
  by (induction stack) (auto simp: stackAttrs_def map_filter_simps)

lemma sa_append:
  assumes "\<forall>r\<in>set stack. node_at es r \<noteq> None"
  shows "stackAttrs (es @ [e]) stack = stackAttrs es stack"
proof -
  have "\<forall>r\<in>set stack. node_at (es @ [e]) r = node_at es r"
    using assms node_at_append by force
  then show ?thesis using assms by (simp add: sa_valid)
qed

lemma sa_push:
  assumes "\<forall>r\<in>set stack. node_at es r \<noteq> None"
  shows "stackAttrs (push_at es q e) stack = stackAttrs es stack"
proof -
  have *: "\<forall>r\<in>set stack. node_at (push_at es q e) r \<noteq> None \<and>
           attrs (the (node_at (push_at es q e) r)) = attrs (the (node_at es r))"
    using assms node_at_push_at_attrs[of es _ _ q e] by force
  then show ?thesis using assms by (simp add: sa_valid)
qed

lemma sa_take:
  "\<forall>r\<in>set stack. node_at es r \<noteq> None \<Longrightarrow> stackAttrs es (take n stack) = take n (stackAttrs es stack)"
  using sa_valid[of "take n stack" es] sa_valid[of stack es]
  by (simp add: take_map) (meson in_set_takeD)

lemma sa_snoc:
  "\<forall>r\<in>set stack. node_at es r \<noteq> None \<Longrightarrow> node_at es r = Some x \<Longrightarrow>
     stackAttrs es (stack @ [r]) = stackAttrs es stack @ [attrs x]"
  using sa_valid[of "stack @ [r]" es] sa_valid[of stack es] by simp

lemma openOrder_take: "openOrder config seen S \<Longrightarrow> openOrder config seen (take n S)"
  unfolding openOrder_def
proof (elim exE conjE)
  fix A B
  assume h: "S = A @ B" "\<forall>a\<in>set A. type a = SubFile" "\<forall>b\<in>set B. sectionBearing b \<and> rk config b \<noteq> None"
    "sorted_wrt (\<lambda>x y. js_gt (rk config y) (rk config x)) B" "\<not> seen \<longrightarrow> B = []"
  have "take n S = take n A @ take (n - length A) B" using h(1) by simp
  moreover have "\<forall>a\<in>set (take n A). type a = SubFile" using h(2) by (meson in_set_takeD)
  moreover have "\<forall>b\<in>set (take (n - length A) B). sectionBearing b \<and> rk config b \<noteq> None"
    using h(3) by (meson in_set_takeD)
  moreover have "sorted_wrt (\<lambda>x y. js_gt (rk config y) (rk config x)) (take (n - length A) B)"
    using h(4) by (rule sorted_wrt_take)
  moreover have "\<not> seen \<longrightarrow> take (n - length A) B = []" using h(5) by simp
  ultimately show "\<exists>A' B'. take n S = A' @ B' \<and> (\<forall>a\<in>set A'. type a = SubFile) \<and>
      (\<forall>b\<in>set B'. sectionBearing b \<and> rk config b \<noteq> None) \<and>
      sorted_wrt (\<lambda>x y. js_gt (rk config y) (rk config x)) B' \<and> (\<not> seen \<longrightarrow> B' = [])"
    by blast
qed

lemma openOrder_snoc_sub: "openOrder config False S \<Longrightarrow> type a = SubFile \<Longrightarrow> openOrder config False (S @ [a])"
  unfolding openOrder_def by (rule exI[of _ "S @ [a]"], rule exI[of _ "[]"]) auto

lemma openOrder_snoc_sec:
  assumes "openOrder config seen S" and "sectionBearing a" and "rk config a \<noteq> None"
    and "S \<noteq> [] \<Longrightarrow> \<not> js_le (rk config a) (rk config (last S))"
  shows "openOrder config True (S @ [a])"
proof -
  from assms(1) obtain A B where h: "S = A @ B" "\<forall>a\<in>set A. type a = SubFile"
    "\<forall>b\<in>set B. sectionBearing b \<and> rk config b \<noteq> None"
    "sorted_wrt (\<lambda>x y. js_gt (rk config y) (rk config x)) B"
    unfolding openOrder_def by blast
  obtain r where r: "rk config a = Some r" using assms(3) by auto
  have "\<forall>x\<in>set B. js_gt (rk config a) (rk config x)"
  proof (cases "B = []")
    case True
    then show ?thesis by simp
  next
    case False
    then have l: "last S = last B" "S \<noteq> []" using h(1) by auto
    from False h(3) obtain rb where rb: "rk config (last B) = Some rb" by fastforce
    with assms(4) l r have lt: "rb < r" by simp
    show ?thesis
    proof
      fix x assume x: "x \<in> set B"
      from x h(3) obtain rx where rx: "rk config x = Some rx" by fastforce
      have "rx \<le> rb"
      proof (cases "x = last B")
        case True
        with rx rb show ?thesis by simp
      next
        case False
        have B: "B = butlast B @ [last B]" using \<open>B \<noteq> []\<close> by simp
        with x False have "x \<in> set (butlast B)" by (metis Un_iff empty_iff empty_set set_ConsD set_append)
        moreover have "sorted_wrt (\<lambda>x y. js_gt (rk config y) (rk config x)) (butlast B @ [last B])"
          using h(4) B by simp
        ultimately have "js_gt (rk config (last B)) (rk config x)"
          by (simp add: sorted_wrt_append)
        with rx rb show ?thesis by simp
      qed
      with lt rx r show "js_gt (rk config a) (rk config x)" by simp
    qed
  qed
  then have "sorted_wrt (\<lambda>x y. js_gt (rk config y) (rk config x)) (B @ [a])"
    using h(4) by (simp add: sorted_wrt_append)
  moreover have "\<forall>b\<in>set (B @ [a]). sectionBearing b \<and> rk config b \<noteq> None"
    using h(3) assms(2,3) by auto
  ultimately show ?thesis unfolding openOrder_def using h(1,2)
    by (intro exI[of _ A] exI[of _ "B @ [a]"]) simp
qed

lemma openOrder_result:
  assumes "openOrder config seen S"
  shows "sorted_wrt (\<lambda>p c. js_gt c p) (map (\<lambda>a. secIndex config (name a)) (filter sectionBearing S))"
proof -
  from assms obtain A B where h: "S = A @ B" "\<forall>a\<in>set A. type a = SubFile"
    "\<forall>b\<in>set B. sectionBearing b \<and> rk config b \<noteq> None"
    "sorted_wrt (\<lambda>x y. js_gt (rk config y) (rk config x)) B"
    unfolding openOrder_def by blast
  have "filter sectionBearing A = []" using h(2) by (auto simp: filter_empty_conv sectionBearing_def)
  moreover have "filter sectionBearing B = B" using h(3) by (simp add: filter_id_conv)
  ultimately have "filter sectionBearing S = B" using h(1) by simp
  then show ?thesis using h(4) by (simp add: sorted_wrt_map rk_def)
qed

lemma nestSectionLoop_openOrder:
  assumes "chain es stack" and "openOrder config seen (stackAttrs es stack)" and "pipelineShape config seen xs"
    and "nestSectionLoop config xs (es, stack) = Inr (es', stack')"
  shows "\<exists>seen'. openOrder config seen' (stackAttrs es' stack')"
  using assms
proof (induction xs arbitrary: es stack seen)
  case Nil
  then show ?case by auto
next
  case (Cons e xs)
  have valid: "\<forall>r\<in>set stack. node_at es r \<noteq> None" using Cons.prems(1) chain_valid by blast
  from Cons.prems(1) show ?case
  proof (cases rule: nestSectionStep_cases[of es stack e config])
    case pass
    then have sh: "pipelineShape config seen xs"
      using Cons.prems(3) by (auto simp: participates_def sectionBearing_def split: if_splits)
    have "chain (es @ [e]) stack" using Cons.prems(1) by (rule chain_append)
    moreover have "openOrder config seen (stackAttrs (es @ [e]) stack)"
      using Cons.prems(2) valid by (simp add: sa_append)
    ultimately show ?thesis using Cons.IH sh pass(2) Cons.prems(4) by auto
  next
    case top
    have c: "chain (es @ [e]) [[length es]]" by (simp add: chain_single)
    have sa: "stackAttrs (es @ [e]) [[length es]] = [attrs e]"
      by (simp add: stackAttrs_def map_filter_simps)
    show ?thesis
    proof (cases "sectionBearing (attrs e)")
      case True
      with Cons.prems(3) have sh: "pipelineShape config True xs" and rkd: "rk config (attrs e) \<noteq> None"
        by (auto simp: rk_def rank_def)
      have "openOrder config True ([] @ [attrs e])"
        by (rule openOrder_snoc_sec[of config True]) (use True rkd in \<open>auto simp: openOrder_def\<close>)
      with sa have "openOrder config True (stackAttrs (es @ [e]) [[length es]])" by simp
      from Cons.IH[OF c this sh] top(2) Cons.prems(4) show ?thesis by simp
    next
      case False
      with top(1) have sub: "type (attrs e) = SubFile" by (auto simp: participates_def sectionBearing_def)
      with False Cons.prems(3) have sh: "pipelineShape config seen xs" and ns: "\<not> seen" by auto
      have "openOrder config False ([] @ [attrs e])"
        by (rule openOrder_snoc_sub) (use sub in \<open>auto simp: openOrder_def\<close>)
      with sa ns have "openOrder config seen (stackAttrs (es @ [e]) [[length es]])" by simp
      from Cons.IH[OF c this sh] top(2) Cons.prems(4) show ?thesis by simp
    qed
  next
    case (child n t)
    let ?q = "last (take n stack)" and ?S = "stackAttrs es (take n stack)"
    let ?es = "push_at es ?q e" and ?st = "take n stack @ [?q @ [length (children t)]]"
    have ne: "take n stack \<noteq> []" using child(2,3) by auto
    have ct: "chain es (take n stack)" using Cons.prems(1) by (rule chain_take)
    have c: "chain ?es ?st" using chain_push[OF ct ne child(4)] .
    have vt: "\<forall>r\<in>set (take n stack). node_at es r \<noteq> None" using valid by (meson in_set_takeD)
    have vt': "\<forall>r\<in>set (take n stack). node_at ?es r \<noteq> None"
      using vt node_at_push_at_attrs[of es _ _ ?q e] by force
    have qne: "?q \<noteq> []" using child(4) by auto
    have new: "node_at ?es (?q @ [length (children t)]) = Some e"
      using node_at_push_at_same[OF child(4), of e] by (simp add: node_at_snoc[OF qne])
    have sa: "stackAttrs ?es ?st = ?S @ [attrs e]"
      using sa_snoc[OF vt' new] sa_push[OF vt] by simp
    have Sne: "?S \<noteq> []" using ne vt by (simp add: sa_valid)
    have lastS: "last ?S = attrs t" using ne vt child(4) by (simp add: sa_valid last_map)
    have JS: "openOrder config seen ?S" using openOrder_take[OF Cons.prems(2), of n] valid by (simp add: sa_take)
    have nle: "\<not> js_le (rk config (attrs e)) (rk config (last ?S))"
      using child(5) lastS by (simp add: rk_def rank_def)
    show ?thesis
    proof (cases "sectionBearing (attrs e)")
      case True
      with Cons.prems(3) have sh: "pipelineShape config True xs" and rkd: "rk config (attrs e) \<noteq> None"
        by (auto simp: rk_def rank_def)
      have "openOrder config True (stackAttrs ?es ?st)"
        using openOrder_snoc_sec[OF JS True rkd] nle sa by simp
      from Cons.IH[OF c this sh] child(6) Cons.prems(4) show ?thesis by simp
    next
      case False
      with child(1) have sub: "type (attrs e) = SubFile" by (auto simp: participates_def sectionBearing_def)
      with False Cons.prems(3) have sh: "pipelineShape config seen xs" and ns: "\<not> seen" by auto
      have "openOrder config seen (stackAttrs ?es ?st)"
        using openOrder_snoc_sub[OF _ sub, of config ?S] JS ns sa by simp
      from Cons.IH[OF c this sh] child(6) Cons.prems(4) show ?thesis by simp
    qed
  qed
qed

lemma pipelineShape_take: "pipelineShape config seen xs \<Longrightarrow> pipelineShape config seen (take n xs)"
proof (induction xs arbitrary: seen n)
  case Nil
  then show ?case by simp
next
  case (Cons e xs)
  then show ?case by (cases n) (auto split: if_splits)
qed

lemma noSectionPair_ranksOk: "noSectionPair e \<Longrightarrow> ranksOk config e"
  by (induction e rule: noSectionPair.induct) (auto simp: pairOk_def)

lemma pipelineShape_attrs:
  "map attrs xs = map attrs ys \<Longrightarrow> pipelineShape config seen xs = pipelineShape config seen ys"
proof (induction xs arbitrary: ys seen)
  case Nil
  then show ?case by simp
next
  case (Cons x xs)
  then obtain y ys' where ys: "ys = y # ys'" "attrs x = attrs y" "map attrs xs = map attrs ys'"
    by (cases ys) auto
  with Cons.IH[of ys'] show ?case by (simp add: rank_def)
qed

lemma pipelineShape_snoc:
  "pipelineShape config seen (xs @ [e]) =
    (pipelineShape config seen xs \<and>
     (if sectionBearing (attrs e) then rank config e \<noteq> None
      else if type (attrs e) = SubFile then \<not> seen \<and> (\<forall>x\<in>set xs. \<not> sectionBearing (attrs x))
      else True))"
proof (induction xs arbitrary: seen)
  case Nil
  then show ?case by simp
next
  case (Cons x xs)
  then show ?case by (auto simp: sectionBearing_def)
qed

lemma nestNonSection_output_aux:
  "(\<forall>e\<in>set struct. leafSections config e) \<longrightarrow>
     (\<forall>e\<in>set (nestNonSection struct). noSectionPair e) \<and>
     pipelineShape config False (nestNonSection struct)"
  "(\<forall>e\<in>set struct. leafSections config e) \<and> nnsInv config elements cur \<longrightarrow>
     (\<forall>e\<in>set (nestNonSectionLoop struct elements cur). noSectionPair e) \<and>
     pipelineShape config False (nestNonSectionLoop struct elements cur)"
proof (induction struct and struct elements cur rule: nestNonSection_nestNonSectionLoop.induct)
  case (1 struct)
  have "nnsInv config [] None" by (simp add: nnsInv_def)
  with 1 show ?case by simp
next
  case (2 elements currentSection)
  then show ?case by (simp add: nnsInv_def)
next
  case (3 a cs rest elements currentSection)
  let ?e = "TeXElement a (nestNonSection cs)"
  show ?case
  proof (intro impI, elim conjE)
    assume leaf: "\<forall>e\<in>set (TeXElement a cs # rest). leafSections config e"
      and inv: "nnsInv config elements currentSection"
    from leaf have lcs: "\<forall>c\<in>set cs. leafSections config c"
      and la: "sectionBearing a \<longrightarrow> cs = [] \<and> secIndex config (name a) \<noteq> None"
      and lrest: "\<forall>e\<in>set rest. leafSections config e" by auto
    from 3(1) lcs have kids: "\<forall>e\<in>set (nestNonSection cs). noSectionPair e" by blast
    have ne: "noSectionPair ?e"
    proof (cases "sectionBearing a")
      case True
      with la show ?thesis by simp
    next
      case False
      with kids show ?thesis by simp
    qed
    show "(\<forall>e\<in>set (nestNonSectionLoop (TeXElement a cs # rest) elements currentSection). noSectionPair e) \<and>
        pipelineShape config False (nestNonSectionLoop (TeXElement a cs # rest) elements currentSection)"
    proof (cases "type a = Section \<or> type a = SectionAst")
      case True
      then have sb: "sectionBearing a" by (simp add: sectionBearing_def)
      have "nnsInv config (elements @ [?e]) (Some (length elements))"
        using inv ne sb la by (auto simp: nnsInv_def pipelineShape_snoc rank_def)
      with 3(2)[of ?e] True lrest show ?thesis by (simp add: Let_def)
    next
      case nsec: False
      then have nsb: "\<not> sectionBearing a" by (simp add: sectionBearing_def)
      show ?thesis
      proof (cases currentSection)
        case None
        have "nnsInv config (elements @ [?e]) None"
          using inv ne nsb None by (auto simp: nnsInv_def pipelineShape_snoc)
        with 3(3)[of ?e] nsec None lrest show ?thesis by (simp add: Let_def)
      next
        case (Some i)
        let ?p = "TeXElement (attrs (elements ! i)) (children (elements ! i) @ [?e])"
        let ?els = "elements[i := ?p]"
        from inv Some have i: "Suc i = length elements" "sectionBearing (attrs (elements ! i))"
          and all: "\<forall>e\<in>set elements. noSectionPair e" and sh: "pipelineShape config False elements"
          by (auto simp: nnsInv_def)
        have "noSectionPair (elements ! i)" using all i(1) by (metis lessI nth_mem)
        then have np: "noSectionPair ?p" using ne nsb by (cases "elements ! i") auto
        have a1: "\<forall>e\<in>set ?els. noSectionPair e"
          using all np by (metis in_set_updD)
        have "map attrs ?els = map attrs elements"
          using i(1) by (simp add: map_update list_update_same_conv)
        then have a2: "pipelineShape config False ?els" using sh pipelineShape_attrs by blast
        have "nnsInv config ?els (Some i)"
          using a1 a2 i by (simp add: nnsInv_def)
        with 3(4)[of ?e i] nsec Some lrest show ?thesis by (simp add: Let_def)
      qed
    qed
  qed
qed

lemma nestNonSection_output:
  assumes "\<forall>e\<in>set struct. leafSections config e"
  shows "list_all (ranksOk config) (nestNonSection struct) \<and>
         pipelineShape config False (nestNonSection struct)"
  using nestNonSection_output_aux(1)[of struct config] assms noSectionPair_ranksOk
  by (auto simp: list_all_iff)

lemma construct_nesting_rank_order:
  assumes "\<forall>e\<in>set struct. leafSections config e"
  shows "\<exists>elements. nestSection config (nestNonSection struct) = Inr elements \<and>
           list_all (ranksOk config) elements"
proof -
  have c: "chain [] []" by (simp add: chain_def)
  from nestSectionLoop_props[OF c, of config "nestNonSection struct"] obtain es' stack' where
    r: "nestSectionLoop config (nestNonSection struct) ([], []) = Inr (es', stack')"
       "(\<forall>x\<in>set (nestNonSection struct). ranksOk config x) \<longrightarrow> (\<forall>x\<in>set es'. ranksOk config x)"
    by auto
  from nestNonSection_output[OF assms] r(2) have "list_all (ranksOk config) es'"
    by (simp add: list_all_iff)
  with r(1) show ?thesis by (simp add: nestSection_def)
qed

section \<open>Lemmas on the float numbering\<close>







lemma addFloatNumber_Cons:
  "addFloatNumber (TeXElement a cs # rest) c =
    (let n = Suc (case c (name a) of None \<Rightarrow> 0 | Some k \<Rightarrow> k);
         a' = (if isFloat a then a\<lparr>label := insertNumber (label a) n\<rparr> else a);
         c1 = (if isFloat a then c(name a \<mapsto> n) else c);
         r1 = addFloatNumber cs c1;
         r2 = addFloatNumber rest (snd r1)
     in (TeXElement a' (fst r1) # fst r2, snd r2))"
  by (simp add: Let_def isFloat_def split: prod.splits)








section \<open>Lemmas on the extraction\<close>

lemma exSelf_classify:
  "classify exSelfWorld (refreshLaTeXModelConfig exSelfWorld True) ''/main.tex'' (inputOf ''main'') =
    Inr (Some (mkElement (inputOf ''main'') ''/main.tex'' SubFile ''input'' ''/main.tex''), Some ''/main.tex'')"
  by (simp add: exSelfWorld_def exWorld_def inputOf_def refreshLaTeXModelConfig_def bindE_def
      argAt_def orEmpty_def subFileElement_def rootFileOrEmpty_def)

lemma exSelf_acquire:
  "acquire exSelfWorld ''/main.tex'' = (Some ''(text)'', Some [inputOf ''main''])"
  by (simp add: exSelfWorld_def exWorld_def acquire_def)

lemma exSelf_diverges:
  "structs ''/main.tex'' = None \<Longrightarrow>
    constructFile fuel exSelfWorld (refreshLaTeXModelConfig exSelfWorld True) ''/main.tex'' structs = None"
proof (induction fuel)
  case 0
  then show ?case by simp
next
  case (Suc fuel)
  then show ?case
    by (simp add: exSelf_acquire parseNode.simps exSelf_classify)
qed



section \<open>Lemmas on the whole pipeline\<close>

text \<open>
  What \<^verbatim>\<open>parseNode\<close> pushes satisfies \<open>leafSections\<close>, the splice keeps that, and
  the numbering passes keep types, names and shape. So the forest that
  \<^verbatim>\<open>construct\<close> returns satisfies the rank condition whenever it returns one.
\<close>

lemma subFileElement_type:
  "subFileElement config node f m resolved raw = (Some e, aw) \<Longrightarrow>
     children e = [] \<and> type (attrs e) = SubFile"
  by (auto simp: subFileElement_def mkElement_def split: option.splits if_splits)

lemma classify_made:
  assumes "configOk config" and "classify world config f node = Inr (Some e, aw)"
  shows "children e = [] \<and>
         (sectionBearing (attrs e) \<longrightarrow> secIndex config (name (attrs e)) \<noteq> None \<and> nodeContent node = [])"
proof (cases node)
  case m: (AstMacro p content args)
  consider (sec) "content \<in> set (secs config)"
    | (cmd) "content \<notin> set (secs config)" "content \<in> set (cmds config)"
    | (other) "content \<notin> set (secs config)" "content \<notin> set (cmds config)"
    by blast
  then show ?thesis
  proof cases
    case sec
    with assms m show ?thesis
      by (auto simp: bindE_def mkElement_def configOk_def split: sum.splits)
  next
    case cmd
    with assms m show ?thesis
      by (auto simp: bindE_def mkElement_def sectionBearing_def split: sum.splits)
  next
    case other
    have "children e = [] \<and> type (attrs e) = SubFile"
    proof (cases "content \<in> set [''input'', ''InputIfFileExists'', ''include'', ''SweaveInput'',
                             ''subfile'', ''loadglsentries'', ''markdownInput'']")
      case True
      with assms(2) m other show ?thesis
        by (simp add: bindE_def split: sum.splits) (metis subFileElement_type)
    next
      case n1: False
      show ?thesis
      proof (cases "content \<in> set [''import'', ''inputfrom'', ''includefrom'']")
        case True
        with assms(2) m other n1 show ?thesis
          by (simp add: bindE_def split: sum.splits) (metis subFileElement_type)
      next
        case n2: False
        show ?thesis
        proof (cases "content \<in> set [''subimport'', ''subinputfrom'', ''subincludefrom'']")
          case True
          with assms(2) m other n1 n2 show ?thesis
            by (simp add: bindE_def split: sum.splits) (metis subFileElement_type)
        next
          case False
          with assms(2) m other n1 n2 show ?thesis by simp
        qed
      qed
    qed
    then show ?thesis by (simp add: sectionBearing_def)
  qed
next
  case en: (AstEnvironment p env args ns)
  have "children e = [] \<and> type (attrs e) = Environment"
  proof (cases "env = ''frame''")
    case True
    with assms(2) en show ?thesis
      by (auto simp: bindE_def mkElement_def split: sum.splits if_splits)
  next
    case n1: False
    show ?thesis
    proof (cases "(env = ''figure'' \<or> env = ''figure*'') \<and> ''figure'' \<in> set (envs config)
           \<or> (env = ''table'' \<or> env = ''table*'') \<and> ''table'' \<in> set (envs config)")
      case True
      then have "classify world config f (AstEnvironment p env args ns) =
         bindE (argContentToStr (orEmpty (argAt (findMacroArgs ''caption'' ns) 1)))
         (\<lambda>caption.
            let env' = (if env \<noteq> [] \<and> last env = CHR ''*'' then butlast env else env) in
            Inr (Some (mkElement (AstEnvironment p env args ns) f Environment env'
                   (capitalize env' @
                     (if viewOutlineFloatsCaptionEnabled world \<and> caption \<noteq> []
                      then '': '' @ caption else []))),
                 None))"
        using n1 by (simp only: classify.simps if_True if_False)
      with assms(2) en show ?thesis
        by (auto simp: bindE_def mkElement_def Let_def split: sum.splits)
    next
      case n2: False
      show ?thesis
      proof (cases "env = ''macro'' \<or> env = ''environment''")
        case True
        then have "classify world config f (AstEnvironment p env args ns) =
           bindE (docCaption ns)
         (\<lambda>caption. Inr (Some (mkElement (AstEnvironment p env args ns) f Environment env
                        (capitalize env @
                          (case caption of
                             None \<Rightarrow> []
                           | Some c \<Rightarrow>
                               if viewOutlineFloatsCaptionEnabled world then '': '' @ c else []))),
                      None))"
          using n1 n2 by (simp only: classify.simps if_True if_False)
        with assms(2) en show ?thesis
          by (auto simp: bindE_def mkElement_def split: sum.splits)
      next
        case n3: False
        have "classify world config f (AstEnvironment p env args ns) =
           (if env \<in> set (envs config) then
       Inr (Some (mkElement (AstEnvironment p env args ns) f Environment env (capitalize env)),
            None)
     else Inr (None, None))"
          using n1 n2 n3 by (simp only: classify.simps if_True if_False)
        with assms(2) en show ?thesis
          by (auto simp: mkElement_def split: if_splits)
      qed
    qed
  qed
  then show ?thesis by (simp add: sectionBearing_def)
next
  case (AstMathEnv p env args ns)
  with assms show ?thesis
    by (auto simp: mkElement_def sectionBearing_def split: if_splits)
qed (use assms in auto)


lemma rnwElement_leaf: "leafSections config (rnwElement config' node f rnw)"
  by (simp add: rnwElement_def sectionBearing_def)

lemma cacheOk_upd:
  "cacheOk config structs \<Longrightarrow> \<forall>e\<in>set s. leafSections config e \<Longrightarrow> cacheOk config (structs(f \<mapsto> s))"
  by (simp add: cacheOk_def)

lemma extraction_leafSections:
  "configOk config \<Longrightarrow> cacheOk config structs \<Longrightarrow>
     constructFile fuel world config f structs = Some (Inr s') \<Longrightarrow> cacheOk config s'"
  "configOk config \<Longrightarrow> cacheOk config structs \<Longrightarrow>
     parseNode fuel world config f node q structs = Some (Inr (pushed, q', s')) \<Longrightarrow>
     cacheOk config s' \<and> (\<forall>e\<in>set pushed. leafSections config e)"
  "configOk config \<Longrightarrow> cacheOk config structs \<Longrightarrow>
     parseNodes fuel world config f nodes q structs = Some (Inr (pushed, q', s')) \<Longrightarrow>
     cacheOk config s' \<and> (\<forall>e\<in>set pushed. leafSections config e)"
proof (induction fuel world config f structs and fuel world config f node q structs
    and fuel world config f nodes q structs
    arbitrary: s' and pushed q' s' and pushed q' s'
    rule: constructFile_parseNode_parseNodes.induct)
  case (1 world config fl structs)
  then show ?case by simp
next
  case (2 fuel world config fl structs)
  show ?case
  proof (cases "structs fl \<noteq> None")
    case True
    with "2.prems" show ?thesis by auto
  next
    case False
    obtain content ast where a: "acquire world fl = (content, ast)" by (cases "acquire world fl")
    show ?thesis
    proof (cases "\<exists>c t. content = Some c \<and> ast = Some t \<and> c \<noteq> []")
      case True
      then obtain c t where ct: "content = Some c" "ast = Some t" "c \<noteq> []" by blast
      from "2.prems"(3) False a ct obtain rc rq rs where
        r: "parseNodes fuel world config fl t
              (parseRnwChildCommand world c fl (rootFileOrEmpty world)) structs = Some (Inr (rc, rq, rs))"
        and s': "s' = rs(fl \<mapsto> rc)"
        by (auto split: option.splits sum.splits)
      from "2.IH"[OF False a[symmetric] ct(1,2,3) "2.prems"(1,2) r]
      show ?thesis unfolding s' using cacheOk_upd by blast
    next
      case False
      with "2.prems" a \<open>\<not> structs fl \<noteq> None\<close> show ?thesis
        by (auto split: option.splits if_splits)
    qed
  qed
next
  case (3 fuel world config fl node rnwSub structs)
  from "3.prems"(3) obtain element awaited where
    cl: "classify world config fl node = Inr (element, awaited)"
    by (auto simp: parseNode.simps split: sum.splits)
  from "3.prems"(3) cl obtain structs1 where
    s1: "(case awaited of None \<Rightarrow> Some (Inr structs)
          | Some f \<Rightarrow> constructFile fuel world config f structs) = Some (Inr structs1)"
    by (auto simp: parseNode.simps split: option.splits sum.splits)
  have ok1: "cacheOk config structs1"
  proof (cases awaited)
    case None
    with s1 "3.prems"(2) show ?thesis by simp
  next
    case (Some g)
    with s1 have "constructFile fuel world config g structs = Some (Inr structs1)" by simp
    from "3.IH"(1)[OF cl refl Some "3.prems"(1,2) this] show ?thesis .
  qed
  let ?pop = "rnwSub \<noteq> [] \<and> nodeLineFr node \<le> rnwLine (last rnwSub)"
  from "3.prems"(3) cl s1 obtain pre rnwSub1 structs2 where
    s2: "(if ?pop
           then case if subFile config
                     then constructFile fuel world config (rnwSubFile (last rnwSub)) structs1
                     else Some (Inr structs1) of
                  None \<Rightarrow> None | Some (Inl e) \<Rightarrow> Some (Inl e)
                | Some (Inr structs2) \<Rightarrow>
                    Some (Inr ([rnwElement config node fl (last rnwSub)], butlast rnwSub, structs2))
           else Some (Inr ([], rnwSub, structs1))) = Some (Inr (pre, rnwSub1, structs2))"
    by (simp add: parseNode.simps split: option.splits sum.splits prod.splits)
  have ok2: "cacheOk config structs2" and pre: "\<forall>e\<in>set pre. leafSections config e"
  proof -
    show "\<forall>e\<in>set pre. leafSections config e"
      using s2 by (auto simp: rnwElement_leaf split: if_splits option.splits sum.splits)
    show "cacheOk config structs2"
    proof (cases "?pop \<and> subFile config")
      case True
      with s2 have "constructFile fuel world config (rnwSubFile (last rnwSub)) structs1 = Some (Inr structs2)"
        by (auto split: option.splits sum.splits)
      from "3.IH"(2)[OF cl refl s1 refl _ _ "3.prems"(1) ok1 this] True show ?thesis by blast
    next
      case False
      with s2 ok1 show ?thesis by (auto split: if_splits)
    qed
  qed
  from "3.prems"(3) cl s1 s2 obtain below where
    b: "parseNodes fuel world config fl (nodeContent node) rnwSub1 structs2 = Some (Inr (below, q', s'))"
    and p: "pushed = pre @ (case element of None \<Rightarrow> below | Some made \<Rightarrow> [TeXElement (attrs made) below])"
    by (simp add: parseNode.simps split: option.splits sum.splits prod.splits)
  from "3.IH"(3)[OF cl refl s1 refl s2 refl refl refl "3.prems"(1) ok2 b]
  have ok3: "cacheOk config s'" and bl: "\<forall>e\<in>set below. leafSections config e" by auto
  have "\<forall>e\<in>set (case element of None \<Rightarrow> below | Some made \<Rightarrow> [TeXElement (attrs made) below]).
          leafSections config e"
  proof (cases element)
    case None
    with bl show ?thesis by simp
  next
    case (Some made)
    from classify_made[OF "3.prems"(1) cl[unfolded Some]]
    have m: "sectionBearing (attrs made) \<longrightarrow>
        secIndex config (name (attrs made)) \<noteq> None \<and> nodeContent node = []" by simp
    have "sectionBearing (attrs made) \<longrightarrow> below = []"
      using m b by auto
    with m bl Some show ?thesis by simp
  qed
  with ok3 pre p show ?case by auto
next
  case (4 fuel world config fl rnwSub structs)
  then show ?case by simp
next
  case (5 fuel world config fl node rest rnwSub structs)
  from "5.prems"(3) obtain p1 q1 s1 where
    n: "parseNode fuel world config fl node rnwSub structs = Some (Inr (p1, q1, s1))"
    by (auto split: option.splits sum.splits)
  from "5.prems"(3) n obtain p2 where
    r: "parseNodes fuel world config fl rest q1 s1 = Some (Inr (p2, q', s'))" and p: "pushed = p1 @ p2"
    by (auto split: option.splits sum.splits)
  from "5.IH"(1)[OF "5.prems"(1,2) n] have ok1: "cacheOk config s1" and l1: "\<forall>e\<in>set p1. leafSections config e"
    by auto
  from "5.IH"(2)[OF n refl refl refl "5.prems"(1) ok1 r] p l1 show ?case by auto
qed

lemma sameKind_refl: "sameKind e e"
  by (induction e) (simp add: list_all2_same)

lemma sameKind_attrs: "sameKind e e' \<Longrightarrow> type (attrs e) = type (attrs e') \<and> name (attrs e) = name (attrs e')"
  by (cases e; cases e') simp

lemma sameKind_ranksOk: "sameKind e e' \<Longrightarrow> ranksOk config e \<Longrightarrow> ranksOk config e'"
proof (induction e e' rule: sameKind.induct)
  case (1 a cs b ds)
  from "1.prems"(1) have k: "type a = type b" "name a = name b" "list_all2 sameKind cs ds" by auto
  show ?case
    unfolding ranksOk.simps
  proof
    fix d assume d: "d \<in> set ds"
    with k(3) obtain c where c: "c \<in> set cs" "sameKind c d"
      by (metis in_set_conv_nth list_all2_conv_all_nth)
    from "1.prems"(2) c(1) have "pairOk config a (attrs c)" "ranksOk config c" by auto
    moreover from sameKind_attrs[OF c(2)] k(1,2)
    have "pairOk config b (attrs d) = pairOk config a (attrs c)"
      by (simp add: pairOk_def sectionBearing_def)
    ultimately show "pairOk config b (attrs d) \<and> ranksOk config d"
      using "1.IH" c d by blast
  qed
qed

lemma sameKind_list_ranksOk:
  "list_all2 sameKind xs ys \<Longrightarrow> list_all (ranksOk config) xs \<Longrightarrow> list_all (ranksOk config) ys"
  by (induction xs ys rule: list_all2_induct) (auto intro: sameKind_ranksOk)

lemma addFloatNumber_sameKind: "list_all2 sameKind struct (fst (addFloatNumber struct counter))"
proof (induction struct arbitrary: counter rule: measure_induct_rule[where f = "size_list size"])
  case (less struct)
  show ?case
  proof (cases struct)
    case Nil
    then show ?thesis by simp
  next
    case (Cons e rest)
    obtain a cs where e: "e = TeXElement a cs" by (cases e)
    have 1: "list_all2 sameKind cs (fst (addFloatNumber cs c))" for c
      using less[of cs c] Cons e by simp
    have 2: "list_all2 sameKind rest (fst (addFloatNumber rest c))" for c
      using less[of rest c] Cons by simp
    show ?thesis unfolding Cons e addFloatNumber_Cons
      by (simp add: Let_def 1 2)
  qed
qed

lemma addSectionNumber_sameKind:
  "addSectionNumberLoop config tag lowest counter struct = Inr out \<Longrightarrow> list_all2 sameKind struct out"
  "addSectionNumber config struct tagOpt lowestOpt = Inr out \<Longrightarrow> list_all2 sameKind struct out"
proof (induction config tag lowest counter struct and config struct tagOpt lowestOpt
    arbitrary: out and out rule: addSectionNumberLoop_addSectionNumber.induct)
  case (1 config tag lowest counter)
  then show ?case by simp
next
  case (2 config tag lowest counter a cs rest)
  show ?case
  proof (cases "secIndex config (name a)")
    case None
    with "2.prems" obtain rest' where
      r: "addSectionNumberLoop config tag lowest counter rest = Inr rest'" "out = TeXElement a cs # rest'"
      by (auto split: sum.splits)
    from "2.IH"(1)[OF None r(1)] r(2) show ?thesis
      by (simp add: list_all2_same sameKind_refl)
  next
    case (Some r)
    define counter' where "counter' = (if type a = Section
                 then counter(r \<mapsto> (case counter r of None \<Rightarrow> 0 | Some k \<Rightarrow> k) + 1)
                 else counter)"
    from "2.prems" Some obtain l where l: "lowest = Finite l" "\<not> r < l"
      by (cases lowest) (auto simp: Let_def split: if_splits)
    from "2.prems" Some l obtain k where k: "counter' r = Some k"
      unfolding counter'_def by (auto simp: Let_def split: option.splits if_splits)
    define sectionNumber where "sectionNumber = tag @ concat (replicate (r - l) ''0.'') @ toString k"
    define a' where "a' = a\<lparr>label := (if type a = Section then sectionNumber else ''*'') @ '' '' @ label a\<rparr>"
    from "2.prems" Some l k obtain cs' rest' where
      c: "(if cs \<noteq> [] then addSectionNumber config cs (Some (sectionNumber @ ''.'')) (Some (r + 1))
           else Inr cs) = Inr cs'"
      and rr: "addSectionNumberLoop config tag lowest counter' rest = Inr rest'"
      and o: "out = TeXElement a' cs' # rest'"
      unfolding counter'_def sectionNumber_def a'_def
      by (auto simp: Let_def split: sum.splits if_splits)
    have kids: "list_all2 sameKind cs cs'"
    proof (cases "cs = []")
      case True
      with c show ?thesis by simp
    next
      case False
      with c have "addSectionNumber config cs (Some (sectionNumber @ ''.'')) (Some (r + 1)) = Inr cs'"
        by simp
      with "2.IH"(2) Some counter'_def l k sectionNumber_def a'_def False
      show ?thesis by blast
    qed
    have "list_all2 sameKind rest rest'"
      using "2.IH"(3) Some counter'_def l k sectionNumber_def a'_def c rr by blast
    with kids o show ?thesis by (simp add: a'_def)
  qed
next
  case (3 config struct tagOpt lowestOpt)
  from "3.prems" "3.IH" show ?case by simp
qed


lemma fold_upd_keeps: "m n \<noteq> None \<Longrightarrow> fold (\<lambda>cmd m'. m'(cmd \<mapsto> i)) cmdList m n \<noteq> None"
  by (induction cmdList arbitrary: m) auto

lemma fold_upd_sets: "n \<in> set cmdList \<Longrightarrow> fold (\<lambda>cmd m'. m'(cmd \<mapsto> i)) cmdList m n \<noteq> None"
proof (induction cmdList arbitrary: m)
  case Nil
  then show ?case by simp
next
  case (Cons c cmdList)
  have step: "fold (\<lambda>cmd m'. m'(cmd \<mapsto> i)) (c # cmdList) m =
      fold (\<lambda>cmd m'. m'(cmd \<mapsto> i)) cmdList (m(c \<mapsto> i))"
    by simp
  show ?case
  proof (cases "n = c")
    case True
    then have "(m(c \<mapsto> i)) n \<noteq> None" by simp
    from fold_upd_keeps[of "m(c \<mapsto> i)" n i cmdList, OF this] show ?thesis unfolding step .
  next
    case False
    with Cons.prems have "n \<in> set cmdList" by simp
    from Cons.IH[OF this] show ?thesis unfolding step .
  qed
qed

lemma secIndexOf_keeps: "m n \<noteq> None \<Longrightarrow> secIndexOf hierarchy i m n \<noteq> None"
proof (induction hierarchy i m rule: secIndexOf.induct)
  case (1 i m)
  then show ?case by simp
next
  case (2 sec hierarchy i m)
  from "2.IH"[OF fold_upd_keeps[of m n i "split sec CHR ''|''", OF "2.prems"]] show ?case
    unfolding secIndexOf.simps .
qed

lemma secIndexOf_sets:
  "sec \<in> set hierarchy \<Longrightarrow> n \<in> set (split sec CHR ''|'') \<Longrightarrow> secIndexOf hierarchy i m n \<noteq> None"
proof (induction hierarchy i m rule: secIndexOf.induct)
  case (1 i m)
  then show ?case by simp
next
  case (2 s hierarchy i m)
  show ?case
  proof (cases "sec = s")
    case True
    with "2.prems" have "n \<in> set (split s CHR ''|'')" by simp
    from secIndexOf_keeps[of "fold (\<lambda>cmd m'. m'(cmd \<mapsto> i)) (split s CHR ''|'') m" n hierarchy "i + 1",
        OF fold_upd_sets[of n "split s CHR ''|''" i m, OF this]]
    show ?thesis
      unfolding secIndexOf.simps .
  next
    case False
    with "2.prems" have "sec \<in> set hierarchy" by simp
    from "2.IH"[OF this "2.prems"(2)] show ?thesis
      unfolding secIndexOf.simps .
  qed
qed

lemma configOk_refresh: "configOk (refreshLaTeXModelConfig world sub)"
  unfolding configOk_def
proof
  fix n
  assume "n \<in> set (secs (refreshLaTeXModelConfig world sub))"
  then obtain sec where "sec \<in> set (viewOutlineSections world)" "n \<in> set (split sec CHR ''|'')"
    by (auto simp: refreshLaTeXModelConfig_def)
  from secIndexOf_sets[OF this]
  show "secIndex (refreshLaTeXModelConfig world sub) n \<noteq> None"
    by (simp add: refreshLaTeXModelConfig_def)
qed

lemma insertSubFile_leafSections_aux:
  "insertSubFileIn fuel world structs struct = Some out \<Longrightarrow> cacheOk config structs \<Longrightarrow>
     \<forall>e\<in>set struct. leafSections config e \<Longrightarrow> \<forall>e\<in>set out. leafSections config e"
  "insertSubFileLoop fuel world structs struct = Some out \<Longrightarrow> cacheOk config structs \<Longrightarrow>
     \<forall>e\<in>set struct. leafSections config e \<Longrightarrow> \<forall>e\<in>set out. leafSections config e"
proof (induction fuel world structs struct and fuel world structs struct
    arbitrary: out and out rule: insertSubFileIn_insertSubFileLoop.induct)
  case (1 fuel world structs struct)
  then show ?case by (auto split: if_splits)
next
  case (2 fuel world structs)
  then show ?case by simp
next
  case (3 fuel world structs a cs rest)
  from "3.prems"(3) have la: "leafSections config (TeXElement a cs)"
    and lr: "\<forall>e\<in>set rest. leafSections config e" by auto
  show ?case
  proof (cases "type a = SubFile \<and> structs (label a) \<noteq> None")
    case True
    then obtain s where s: "structs (label a) = Some s" by auto
    from "3.prems"(1) True obtain fuel' spliced elements where
      f: "fuel = Suc fuel'"
      and sp: "insertSubFileIn fuel' world structs (the (structs (label a))) = Some spliced"
      and el: "insertSubFileLoop fuel world structs rest = Some elements"
      and o: "out = spliced @ elements"
      by (auto simp del: insertSubFileIn.simps split: nat.splits option.splits)
    from "3.prems"(2) s have ls: "\<forall>e\<in>set (the (structs (label a))). leafSections config e"
      by (auto simp: cacheOk_def)
    from "3.IH"(1) True f sp "3.prems"(2) ls have "\<forall>e\<in>set spliced. leafSections config e"
      by blast
    moreover from "3.IH"(2) True f sp el "3.prems"(2) lr have "\<forall>e\<in>set elements. leafSections config e"
      by blast
    ultimately show ?thesis using o by auto
  next
    case False
    from "3.prems"(1) False obtain cs' elements where
      c: "(if cs \<noteq> [] then insertSubFileIn fuel world structs cs else Some cs) = Some cs'"
      and el: "insertSubFileLoop fuel world structs rest = Some elements"
      and o: "out = TeXElement a cs' # elements"
      by (auto simp del: insertSubFileIn.simps split: option.splits)
    from la have lc: "\<forall>e\<in>set cs. leafSections config e" by simp
    have lc': "\<forall>e\<in>set cs'. leafSections config e"
    proof (cases "cs = []")
      case True
      with c show ?thesis by simp
    next
      case ne: False
      with c have "insertSubFileIn fuel world structs cs = Some cs'" by simp
      with "3.IH"(3) False ne "3.prems"(2) lc show ?thesis by blast
    qed
    have e0: "cs = [] \<Longrightarrow> cs' = []" using c by simp
    from la e0 lc' have "leafSections config (TeXElement a cs')" by auto
    moreover from "3.IH"(4) False c el "3.prems"(2) lr have "\<forall>e\<in>set elements. leafSections config e"
      by blast
    ultimately show ?thesis using o by simp
  qed
qed

lemma insertSubFile_leafSections:
  assumes "insertSubFile fuel world structs = Some out" "cacheOk config structs"
  shows "\<forall>e\<in>set out. leafSections config e"
proof (cases "rootFile world")
  case None
  with assms(1) show ?thesis by (simp add: insertSubFile_def)
next
  case (Some root)
  let ?s = "case structs root of None \<Rightarrow> [] | Some struct \<Rightarrow> struct"
  from assms(2) have "\<forall>e\<in>set ?s. leafSections config e"
    by (cases "structs root") (auto simp: cacheOk_def)
  moreover from assms(1) Some have "insertSubFileIn fuel world structs ?s = Some out"
    by (simp add: insertSubFile_def)
  ultimately show ?thesis using insertSubFile_leafSections_aux(1) assms(2) by blast
qed

lemma numberPasses_ranksOk:
  assumes "numberPasses world config sub struct = Inr out" "list_all (ranksOk config) struct"
  shows "list_all (ranksOk config) out"
proof -
  define struct1 where "struct1 = (if sub \<and> viewOutlineFloatsNumberEnabled world
                    then fst (addFloatNumber struct Map.empty) else struct)"
  have "list_all2 sameKind struct struct1"
    by (simp add: struct1_def addFloatNumber_sameKind list_all2_same sameKind_refl)
  from sameKind_list_ranksOk[OF this assms(2)] have 1: "list_all (ranksOk config) struct1" .
  show ?thesis
  proof (cases "sub \<and> viewOutlineNumbersEnabled world")
    case True
    with assms(1) have "addSectionNumber config struct1 None None = Inr out"
      by (simp add: numberPasses_def struct1_def Let_def)
    from sameKind_list_ranksOk[OF addSectionNumber_sameKind(2)[OF this] 1] show ?thesis .
  next
    case False
    with assms(1) have "out = struct1" by (auto simp: numberPasses_def struct1_def Let_def)
    with 1 show ?thesis by simp
  qed
qed

lemma nestAndNumber_ranksOk:
  assumes "nestAndNumber world config sub struct = Inr out" "\<forall>e\<in>set struct. leafSections config e"
  shows "list_all (ranksOk config) out"
proof -
  from construct_nesting_rank_order[OF assms(2)] obtain elements where
    e: "nestSection config (nestNonSection struct) = Inr elements" "list_all (ranksOk config) elements"
    by blast
  with assms(1) have "numberPasses world config sub elements = Inr out"
    by (simp add: nestAndNumber_def)
  from numberPasses_ranksOk[OF this e(2)] show ?thesis .
qed

lemma construct_ranksOk:
  assumes "construct fuel world fileArg sub = Some (Inr out)"
  shows "list_all (ranksOk (refreshLaTeXModelConfig world sub)) out"
proof (cases "case fileArg of None \<Rightarrow> rootFile world | Some f \<Rightarrow> Some f")
  case None
  with assms have "out = []" by (simp add: construct_def)
  then show ?thesis by simp
next
  case (Some fl)
  let ?config = "refreshLaTeXModelConfig world sub"
  from assms Some obtain structs where
    s: "constructFile fuel world ?config fl Map.empty = Some (Inr structs)"
    by (auto simp: construct_def Let_def split: option.splits sum.splits)
  have "cacheOk ?config Map.empty" by (simp add: cacheOk_def)
  with extraction_leafSections(1)[OF configOk_refresh _ s] have ok: "cacheOk ?config structs"
    by blast
  show ?thesis
  proof (cases sub)
    case True
    with assms Some s obtain struct where
      i: "insertSubFile fuel world structs = Some struct"
      and n: "nestAndNumber world ?config sub struct = Inr out"
      by (auto simp: construct_def Let_def split: option.splits)
    from nestAndNumber_ranksOk[OF n insertSubFile_leafSections[OF i ok]] show ?thesis .
  next
    case False
    with assms Some s obtain struct where
      i: "structs fl = Some struct"
      and n: "nestAndNumber world ?config sub struct = Inr out"
      by (auto simp: construct_def Let_def split: option.splits)
    from ok i have "\<forall>e\<in>set struct. leafSections ?config e" by (auto simp: cacheOk_def)
    from nestAndNumber_ranksOk[OF n this] show ?thesis .
  qed
qed

text \<open>The whole pipeline on \<open>exDocWorld\<close>.\<close>

lemma exDoc_extract:
  "constructFile 1 exDocWorld (refreshLaTeXModelConfig exDocWorld False) ''/main.tex'' Map.empty =
     Some (Inr [''/main.tex'' \<mapsto>
       [mkElement (sectionOf ''A'') ''/main.tex'' Section ''section'' ''A'',
        mkElement (subsectionOf ''B'') ''/main.tex'' Section ''subsection'' ''B'',
        mkElement (sectionOf ''C'') ''/main.tex'' Section ''section'' ''C'']])"
  by (simp add: exDocWorld_def exWorld_def acquire_def parseNode.simps sectionOf_def subsectionOf_def
      refreshLaTeXModelConfig_def bindE_def argAt_def orEmpty_def parseRnwChildCommand_def
      mkElement_def)

lemma exDoc_construct:
  "construct 1 exDocWorld None False =
     Some (Inr [el Section ''section'' ''A'' [el Section ''subsection'' ''B'' []],
                el Section ''section'' ''C'' []])"
proof -
  let ?config = "refreshLaTeXModelConfig exDocWorld False"
  let ?struct = "[mkElement (sectionOf ''A'') ''/main.tex'' Section ''section'' ''A'',
        mkElement (subsectionOf ''B'') ''/main.tex'' Section ''subsection'' ''B'',
        mkElement (sectionOf ''C'') ''/main.tex'' Section ''section'' ''C'']"
  have cfg: "secIndex ?config ''section'' = Some 2" "secIndex ?config ''subsection'' = Some 3"
    by (simp_all add: refreshLaTeXModelConfig_def exDocWorld_def exWorld_def split_def)
  have nest: "nestSection ?config (nestNonSection ?struct) =
      Inr [el Section ''section'' ''A'' [el Section ''subsection'' ''B'' []],
           el Section ''section'' ''C'' []]"
    by (simp add: nestSection_def mkElement_def sectionOf_def subsectionOf_def nodeLineFr_def
        nodeLineTo_def el_def cfg popWhile.simps pushChild_def rank_def)
  have num: "numberPasses exDocWorld ?config False struct = Inr struct" for struct
    by (simp add: numberPasses_def)
  have root: "rootFile exDocWorld = Some ''/main.tex''"
    by (simp add: exDocWorld_def exWorld_def)
  from exDoc_extract show ?thesis
    by (simp add: construct_def root nestAndNumber_def nest num Let_def del: constructFile.simps nestNonSection.simps)
qed

section \<open>The claims\<close>

text \<open>
  C1. The claim: whatever the inclusion graph, also one that leads back to a file already
  visited, \<^verbatim>\<open>constructFile\<close> extracts each file at most once and the extraction
  terminates, because the function returns at once for a path that the cache holds.

  The code tests \<^verbatim>\<open>structs[filePath]\<close> on entry but stores the entry only in its last
  statement, after \<^verbatim>\<open>parseNode\<close> has awaited the extraction of every included file.
  While a file is being extracted the cache does not hold it, and an inclusion that leads
  back to it starts the extraction again. For the file \<^verbatim>\<open>/main.tex\<close> of
  \<open>exSelfWorld\<close>, which includes itself, no amount of fuel lets \<open>constructFile\<close>
  return.
\<close>

theorem constructFile_self_inclusion:
  "\<forall>fuel. constructFile fuel exSelfWorld (refreshLaTeXModelConfig exSelfWorld True)
             ''/main.tex'' Map.empty = None"
  by (simp add: exSelf_diverges)

text \<open>
  C2, as the code has it. When the section numbering enters the children of an element
  with rank \<open>r\<close>, the prefix of the child scope is the number computed for the element
  followed by a dot, and the lowest rank of the child scope is \<open>r + 1\<close>: it is derived
  from the rank of the parent, not from the ranks of the children. The number is
  \<open>tag\<close>, then \<^verbatim>\<open>0.\<close> once per rank between the lowest rank of the scope and
  \<open>r\<close>, then the counter of \<open>r\<close>.
\<close>

theorem addSectionNumber_child_scope:
  assumes "secIndex config (name a) = Some r" and "cs \<noteq> []"
    and "addSectionNumberLoop config tag lowest counter (TeXElement a cs # rest) = Inr out"
  shows "\<exists>l k cs' rest'.
      lowest = Finite l \<and> l \<le> r \<and>
      (if type a = Section then k = (case counter r of None \<Rightarrow> 0 | Some j \<Rightarrow> j) + 1
       else counter r = Some k) \<and>
      addSectionNumberLoop config
        (tag @ concat (replicate (r - l) ''0.'') @ toString k @ ''.'') (Finite (r + 1)) Map.empty cs
        = Inr cs' \<and>
      out = TeXElement
              (a\<lparr>label := (if type a = Section
                             then tag @ concat (replicate (r - l) ''0.'') @ toString k else ''*'')
                           @ '' '' @ label a\<rparr>) cs' # rest'"
  using assms
  by (cases lowest; cases "type a = Section")
     (auto simp: Let_def split: if_splits option.splits sum.splits)

text \<open>
  The theorem at the chapter of \<open>exGap\<close>, numbered in a scope whose lowest rank is the
  rank 1 of the chapter: its child scope is numbered with the prefix \<^verbatim>\<open>1.\<close> and the
  lowest rank 2.
\<close>

theorem addSectionNumber_child_scope_witness:
  "secIndex exConfig ''chapter'' = Some 1 \<and>
   addSectionNumberLoop exConfig [] (Finite 1) Map.empty exGap =
     Inr [el Section ''chapter'' ''1 One'' [el Section ''subsection'' ''1.0.1 Deep'' []]] \<and>
   addSectionNumberLoop exConfig ''1.'' (Finite 2) Map.empty [el Section ''subsection'' ''Deep'' []] =
     Inr [el Section ''subsection'' ''1.0.1 Deep'' []]"
proof -
  let ?a = "\<lparr>type = Section, name = ''chapter'', label = ''One'', index = 0, lineFr = 0, lineTo = 0,
              filePath = ''/main.tex''\<rparr>"
  have r: "secIndex exConfig (name ?a) = Some 1" by (simp add: exConfig_def)
  have run: "addSectionNumberLoop exConfig [] (Finite 1) Map.empty
               (TeXElement ?a [el Section ''subsection'' ''Deep'' []] # []) =
             Inr [el Section ''chapter'' ''1 One'' [el Section ''subsection'' ''1.0.1 Deep'' []]]"
    by (simp add: el_def exConfig_def toString.simps digit_def)
  from addSectionNumber_child_scope[OF r _ run] obtain l k cs' rest' where
    h: "Finite 1 = Finite l" "k = (case Map.empty 1 of None \<Rightarrow> 0 | Some j \<Rightarrow> j) + (1::nat)"
       "addSectionNumberLoop exConfig
          ([] @ concat (replicate (1 - l) ''0.'') @ toString k @ ''.'') (Finite (1 + 1)) Map.empty
          [el Section ''subsection'' ''Deep'' []] = Inr cs'"
       "[el Section ''chapter'' ''1 One'' [el Section ''subsection'' ''1.0.1 Deep'' []]] =
          TeXElement (?a\<lparr>label := (if type ?a = Section
                 then [] @ concat (replicate (1 - l) ''0.'') @ toString k else ''*'') @ '' '' @ label ?a\<rparr>)
            cs' # rest'"
    by auto
  from h(1,2) have lk: "l = 1" "k = 1" by simp_all
  from h(4) have "cs' = [el Section ''subsection'' ''1.0.1 Deep'' []]" by (simp add: el_def)
  with h(3) lk have "addSectionNumberLoop exConfig ''1.'' (Finite 2) Map.empty
       [el Section ''subsection'' ''Deep'' []] = Inr [el Section ''subsection'' ''1.0.1 Deep'' []]"
    by (simp add: toString.simps digit_def numeral_2_eq_2)
  with r run show ?thesis by (simp add: exGap_def el_def)
qed


text \<open>
  C2 as stated fails: for a subsection (rank 3) directly under a chapter (rank 1) the
  code pads the missing rank and gives \<^verbatim>\<open>1.0.1\<close>, where a lowest rank computed from
  the children alone gives \<^verbatim>\<open>1.1\<close>.
\<close>

theorem addSectionNumber_child_lowest_counterexample:
  "addSectionNumber exConfig exGap None None =
     Inr [el Section ''chapter'' ''1 One'' [el Section ''subsection'' ''1.0.1 Deep'' []]] \<and>
   addSectionNumberSpec exConfig exGap None None =
     Inr [el Section ''chapter'' ''1 One'' [el Section ''subsection'' ''1.1 Deep'' []]]"
  by (simp add: exGap_def el_def exConfig_def mathMin_def map_filter_simps toString.simps digit_def)






text \<open>
  C4. After the section-nesting pass, a section-bearing child of a section-bearing parent
  has the strictly greater rank wherever both ranks are configured, and the stack of open
  sections is strictly increasing in rank from the outermost to the innermost entry.

  The pass adds children only to the elements of its stack, and it never raises. The first
  part is the pass alone, on an input in which the pairs that exist already satisfy the
  condition. The second part is stated for the top level that \<^verbatim>\<open>nestNonSection\<close>
  hands over (\<open>pipelineShape\<close>, see \<open>nestNonSection_output\<close>), after every number
  \<open>n\<close> of iterations of the loop. The third part is the whole of \<^verbatim>\<open>construct\<close>,
  with no condition on the input: whenever it returns a forest, every pair in it
  satisfies the rank condition, since no section-bearing element has a child before this
  pass and the numbering passes after it rewrite labels only.
\<close>

theorem nestSection_rank_order:
  "(list_all (ranksOk config) struct \<longrightarrow>
      (\<exists>elements. nestSection config struct = Inr elements \<and> list_all (ranksOk config) elements))
   \<and> (pipelineShape config False struct \<longrightarrow>
      (\<forall>n. \<exists>elements stack.
          nestSectionLoop config (take n struct) ([], []) = Inr (elements, stack) \<and>
          sorted_wrt (\<lambda>outer inner. js_gt inner outer) (openSectionRanks config elements stack)))
   \<and> (construct fuel world fileArg sub = Some (Inr out) \<longrightarrow>
      list_all (ranksOk (refreshLaTeXModelConfig world sub)) out)"
proof (intro conjI impI allI)
  assume ok: "list_all (ranksOk config) struct"
  have c: "chain [] []" by (simp add: chain_def)
  from nestSectionLoop_props[OF c, of config struct] obtain es' stack' where
    r: "nestSectionLoop config struct ([], []) = Inr (es', stack')"
       "(\<forall>x\<in>set struct. ranksOk config x) \<longrightarrow> (\<forall>x\<in>set es'. ranksOk config x)"
    by auto
  from r(1) have "nestSection config struct = Inr es'" by (simp add: nestSection_def)
  moreover from r(2) ok have "list_all (ranksOk config) es'" by (simp add: list_all_iff)
  ultimately show "\<exists>elements. nestSection config struct = Inr elements \<and>
      list_all (ranksOk config) elements"
    by blast
next
  fix n
  assume sh: "pipelineShape config False struct"
  have c: "chain [] []" by (simp add: chain_def)
  from nestSectionLoop_props[OF c, of config "take n struct"] obtain es' stack' where
    r: "nestSectionLoop config (take n struct) ([], []) = Inr (es', stack')"
    by auto
  have o: "openOrder config False (stackAttrs [] [])"
    by (simp add: openOrder_def stackAttrs_def map_filter_simps)
  from nestSectionLoop_openOrder[OF c o pipelineShape_take[OF sh] r]
  obtain seen' where "openOrder config seen' (stackAttrs es' stack')" by blast
  then have "sorted_wrt (\<lambda>outer inner. js_gt inner outer) (openSectionRanks config es' stack')"
    unfolding openSectionRanks_def by (rule openOrder_result)
  with r show "\<exists>elements stack.
      nestSectionLoop config (take n struct) ([], []) = Inr (elements, stack) \<and>
      sorted_wrt (\<lambda>outer inner. js_gt inner outer) (openSectionRanks config elements stack)"
    by blast
next
  assume "construct fuel world fileArg sub = Some (Inr out)"
  then show "list_all (ranksOk (refreshLaTeXModelConfig world sub)) out"
    by (rule construct_ranksOk)
qed

text \<open>
  The theorem at \<open>exNest\<close>: an unexpanded inclusion, then sections of ranks 2, 3, 1,
  3 and 2; and at the call of \<^verbatim>\<open>construct\<close> in \<open>exDocWorld\<close>, which returns the
  subsection below the first section.
\<close>

theorem nestSection_rank_order_witness:
  "list_all (ranksOk exConfig) exNest \<and> pipelineShape exConfig False exNest \<and>
   (\<exists>elements. nestSection exConfig exNest = Inr elements \<and> list_all (ranksOk exConfig) elements) \<and>
   (\<forall>n. \<exists>elements stack.
      nestSectionLoop exConfig (take n exNest) ([], []) = Inr (elements, stack) \<and>
      sorted_wrt (\<lambda>outer inner. js_gt inner outer) (openSectionRanks exConfig elements stack)) \<and>
   construct 1 exDocWorld None False =
     Some (Inr [el Section ''section'' ''A'' [el Section ''subsection'' ''B'' []],
                el Section ''section'' ''C'' []]) \<and>
   list_all (ranksOk (refreshLaTeXModelConfig exDocWorld False))
     [el Section ''section'' ''A'' [el Section ''subsection'' ''B'' []],
      el Section ''section'' ''C'' []]"
proof -
  have a: "list_all (ranksOk exConfig) exNest"
    by (simp add: exNest_def el_def)
  have b: "pipelineShape exConfig False exNest"
    by (simp add: exNest_def el_def exConfig_def sectionBearing_def rank_def)
  note c = exDoc_construct
  from a b c
    nestSection_rank_order[of exConfig exNest 1 exDocWorld None False
      "[el Section ''section'' ''A'' [el Section ''subsection'' ''B'' []],
        el Section ''section'' ''C'' []]"]
  show ?thesis by blast
qed

text \<open>
  C5. The claim: the section numbering never raises, and a starred section gets
  \<^verbatim>\<open>*\<close> in place of a number also when no numbered section of its rank precedes it
  in its scope.

  The code computes \<^verbatim>\<open>counter[rank].toString()\<close> for every ranked element before it
  chooses between the number and \<^verbatim>\<open>*\<close>. Only a \<^verbatim>\<open>Section\<close> creates the entry of
  its rank, so a \<^verbatim>\<open>SectionAst\<close> that comes first reads \<^verbatim>\<open>undefined.toString()\<close>:
  on \<open>exStarredFirst\<close> the pass raises a TypeError.
\<close>

theorem addSectionNumber_starred_first_throws:
  "addSectionNumber exConfig exStarredFirst None None = Inl TypeError"
  by (simp add: exStarredFirst_def el_def exConfig_def mathMin_def map_filter_simps)

text \<open>
  C6. The claim: when content or AST of a file stay unavailable, \<^verbatim>\<open>construct\<close>
  still returns a (possibly empty) result for every combination of its arguments, also
  when the file is the root and sub-files are not merged.

  With \<^verbatim>\<open>subFile\<close> true the forest is \<^verbatim>\<open>structs[rootFile] ?? []\<close>, and the result
  is empty. With \<^verbatim>\<open>subFile\<close> false the forest is \<^verbatim>\<open>structs[filePath]\<close> without
  a default, and \<^verbatim>\<open>nestNonSection\<close> iterates over \<^verbatim>\<open>undefined\<close>: in \<open>exWorld\<close>,
  where \<^verbatim>\<open>/main.tex\<close> has no source, the call raises a TypeError.
\<close>

theorem construct_unavailable_root:
  "\<forall>fuel. construct (Suc fuel) exWorld (Some ''/main.tex'') False = Some (Inl TypeError) \<and>
          construct (Suc fuel) exWorld (Some ''/main.tex'') True = Some (Inr [])"
  by (simp add: construct_def exWorld_def acquire_def insertSubFile_def nestAndNumber_def
      nestSection_def numberPasses_def)






text \<open>
  C8. The renderer maps a nested environment, a math environment and a verbatim
  environment to the placeholder \<^verbatim>\<open>\environment{name}\<close>, whatever their body and
  arguments; inline math to its rendered content between two dollar signs; a group to
  its rendered content; and a node of a kind that the \<^verbatim>\<open>switch\<close> does not list (a
  root) to the empty string, without raising. \<^verbatim>\<open>argContentToStr\<close> concatenates the
  renderings of the nodes it is given.
\<close>

theorem nodeToStr_placeholders:
  "nodeToStr (AstEnvironment p env args body) = Inr (backslash # ''environment{'' @ env @ ''}'') \<and>
   nodeToStr (AstMathEnv p env args body) = Inr (backslash # ''environment{'' @ env @ ''}'') \<and>
   nodeToStr (AstVerbatim p env text) = Inr (backslash # ''environment{'' @ env @ ''}'') \<and>
   nodeToStr (AstInlineMath p ns) =
     (case argContentToStr ns of Inl e \<Rightarrow> Inl e | Inr s \<Rightarrow> Inr (''$'' @ s @ ''$'')) \<and>
   nodeToStr (AstGroup p ns) = argContentToStr ns \<and>
   nodeToStr (AstRoot p ns) = Inr [] \<and>
   argContentToStr [node] = nodeToStr node \<and>
   argContentToStr (node # rest) =
     (case nodeToStr node of
        Inl e \<Rightarrow> Inl e
      | Inr s \<Rightarrow> (case argContentToStr rest of Inl e \<Rightarrow> Inl e | Inr t \<Rightarrow> Inr (s @ t)))"
  by (simp add: envToStr_def split: sum.splits)







end
